theory Spec2Isabelle
  imports Complex_Main "HOL-Library.Char_ord" "HOL-Library.List_Lexorder"
begin

text \<open>
  A model of three parts of the clunk audio library: the single-precision SSE
  specialisation of the FFT (\<^verbatim>\<open>sse_fft_context.h\<close>), the MDCT built on the FFT
  (\<^verbatim>\<open>mdct_context.h\<close>) and the bookkeeping of playing sources in \<^verbatim>\<open>Object\<close>
  (\<^verbatim>\<open>object.cpp\<close>). Every source function is a definition of the same name; loops are
  recursive functions; the properties follow the definitions.
\<close>

section \<open>FFT kernel: the bit-reversal scramble\<close>

text \<open>
  \<^verbatim>\<open>fft_context<BITS, float>::scramble\<close>. The array \<^verbatim>\<open>data\<close> holds \<open>N = 1 << BITS\<close>
  elements. The counters \<^verbatim>\<open>i\<close>, \<^verbatim>\<open>j\<close>, \<^verbatim>\<open>m\<close> are C \<^verbatim>\<open>int\<close>s that stay within
  \<open>[0, N]\<close> (the only subtraction, \<^verbatim>\<open>j -= m\<close>, is guarded by \<^verbatim>\<open>j >= m\<close>), so they are
  natural numbers here, and \<^verbatim>\<open>m >>= 1\<close> is \<open>m div 2\<close>. \<open>scramble_while\<close> is the inner
  \<^verbatim>\<open>while\<close> loop and returns the final \<open>(j, m)\<close>; \<open>scramble_for\<close> is the outer
  \<^verbatim>\<open>for\<close> loop, which swaps only when \<open>j < i < N\<close>, that is inside the array.
\<close>

function scramble_while :: "nat \<Rightarrow> nat \<Rightarrow> nat \<times> nat" where
  "scramble_while j m =
     (if j \<ge> m \<and> m \<ge> 2 then scramble_while (j - m) (m div 2) else (j, m))"
  by pat_completeness auto
termination
  by (relation "measure (\<lambda>(j, m). m)") auto

definition swap :: "nat \<Rightarrow> nat \<Rightarrow> 'a list \<Rightarrow> 'a list" where
  "swap a b data = data[a := data ! b, b := data ! a]"

function scramble_for :: "nat \<Rightarrow> nat \<Rightarrow> nat \<Rightarrow> 'a list \<Rightarrow> 'a list" where
  "scramble_for N i j data =
     (if i < N then
        (let data' = (if i > j then swap i j data else data);
             (j', m) = scramble_while j (N div 2)
         in scramble_for N (Suc i) (j' + m) data')
      else data)"
  by pat_completeness auto
termination
  by (relation "measure (\<lambda>(N, i, j, data). N - i)") auto

definition scramble :: "nat \<Rightarrow> 'a list \<Rightarrow> 'a list" where
  "scramble BITS data = scramble_for (2 ^ BITS) 0 0 data"

section \<open>FFT kernel: the SSE transform\<close>

text \<open>
  Single-precision arithmetic is a parameter: a record of the operations the code uses on
  \<^verbatim>\<open>float\<close>, over an arbitrary carrier \<open>'f\<close>. \<open>f_angle N SIGN\<close> stands for the
  constant \<^verbatim>\<open>(T)(-2 * M_PI / N * SIGN)\<close> and \<open>f_num\<close> for the conversion of an integer to
  \<^verbatim>\<open>float\<close>. Whatever is proved holds for every choice of these operations, rounding
  included. A \<^verbatim>\<open>std::complex<T>\<close> is a pair, an \<^verbatim>\<open>__m128\<close> is the list of its four
  lanes, and the \<^verbatim>\<open>_mm_*_ps\<close> intrinsics work lane by lane.

  The scalar butterfly \<^verbatim>\<open>danielson_lanczos<4, T>::apply<SIGN>\<close> that the lane-internal
  level defers to lives in \<^verbatim>\<open>fft_context.h\<close>, which is not among the sources: it is the
  parameter \<open>next_apply\<close>.

  \<open>sse_danielson_lanczos ops next_apply N SIGN off\<close> is
  \<^verbatim>\<open>sse_danielson_lanczos<N, T>::apply<SIGN>(data_re + off, data_im + off)\<close>. There is no
  instantiation for \<open>N = 0\<close> (its \<^verbatim>\<open>next_type\<close> would be itself), and a block that leaves
  the arrays is undefined behaviour: both are the result \<open>None\<close>. \<open>butterfly\<close> is the body of
  the loop over \<^verbatim>\<open>i\<close>, \<open>w_lanes\<close> the loop over \<^verbatim>\<open>k\<close> that fills the twiddle buffers.
\<close>

record 'f arith =
  f_add :: "'f \<Rightarrow> 'f \<Rightarrow> 'f"
  f_sub :: "'f \<Rightarrow> 'f \<Rightarrow> 'f"
  f_mul :: "'f \<Rightarrow> 'f \<Rightarrow> 'f"
  f_div :: "'f \<Rightarrow> 'f \<Rightarrow> 'f"
  f_sin :: "'f \<Rightarrow> 'f"
  f_angle :: "nat \<Rightarrow> int \<Rightarrow> 'f"
  f_num :: "int \<Rightarrow> 'f"

type_synonym 'f cplx = "'f \<times> 'f"
type_synonym 'f m128 = "'f list"

definition SSE_DIV :: nat where
  "SSE_DIV = 4"

definition mm_add_ps :: "'f arith \<Rightarrow> 'f m128 \<Rightarrow> 'f m128 \<Rightarrow> 'f m128" where
  "mm_add_ps ops a b = map2 (f_add ops) a b"

definition mm_sub_ps :: "'f arith \<Rightarrow> 'f m128 \<Rightarrow> 'f m128 \<Rightarrow> 'f m128" where
  "mm_sub_ps ops a b = map2 (f_sub ops) a b"

definition mm_mul_ps :: "'f arith \<Rightarrow> 'f m128 \<Rightarrow> 'f m128 \<Rightarrow> 'f m128" where
  "mm_mul_ps ops a b = map2 (f_mul ops) a b"

definition mm_div_ps :: "'f arith \<Rightarrow> 'f m128 \<Rightarrow> 'f m128 \<Rightarrow> 'f m128" where
  "mm_div_ps ops a b = map2 (f_div ops) a b"

definition mm_set_ps1 :: "'f \<Rightarrow> 'f m128" where
  "mm_set_ps1 v = replicate SSE_DIV v"

definition c_add :: "'f arith \<Rightarrow> 'f cplx \<Rightarrow> 'f cplx \<Rightarrow> 'f cplx" where
  "c_add ops a b = (f_add ops (fst a) (fst b), f_add ops (snd a) (snd b))"

definition c_mul :: "'f arith \<Rightarrow> 'f cplx \<Rightarrow> 'f cplx \<Rightarrow> 'f cplx" where
  "c_mul ops a b =
     (f_sub ops (f_mul ops (fst a) (fst b)) (f_mul ops (snd a) (snd b)),
      f_add ops (f_mul ops (fst a) (snd b)) (f_mul ops (snd a) (fst b)))"

definition twiddle_wp :: "'f arith \<Rightarrow> nat \<Rightarrow> int \<Rightarrow> 'f cplx" where
  "twiddle_wp ops N SIGN =
     (let a = f_angle ops N SIGN;
          wtemp = f_sin ops (f_div ops a (f_num ops 2))
      in (f_mul ops (f_mul ops (f_num ops (- 2)) wtemp) wtemp, f_sin ops a))"

fun w_lanes :: "'f arith \<Rightarrow> 'f cplx \<Rightarrow> nat \<Rightarrow> 'f cplx \<Rightarrow> 'f m128 \<times> 'f m128 \<times> 'f cplx" where
  "w_lanes ops wp 0 w = ([], [], w)"
| "w_lanes ops wp (Suc n) w =
     (case w_lanes ops wp n (c_add ops w (c_mul ops w wp)) of
        (w_re_buf, w_im_buf, w') \<Rightarrow> (fst w # w_re_buf, snd w # w_im_buf, w'))"

definition butterfly :: "'f arith \<Rightarrow> nat \<Rightarrow> nat \<Rightarrow> 'f m128 \<Rightarrow> 'f m128
    \<Rightarrow> 'f m128 list \<times> 'f m128 list \<Rightarrow> 'f m128 list \<times> 'f m128 list" where
  "butterfly ops i j w_re w_im s =
     (case s of (data_re, data_im) \<Rightarrow>
        (let temp_re = mm_sub_ps ops (mm_mul_ps ops (data_re ! j) w_re)
                                    (mm_mul_ps ops (data_im ! j) w_im);
             temp_im = mm_add_ps ops (mm_mul_ps ops (data_im ! j) w_re)
                                    (mm_mul_ps ops (data_re ! j) w_im);
             re1 = data_re[j := mm_sub_ps ops (data_re ! i) temp_re];
             im1 = data_im[j := mm_sub_ps ops (data_im ! i) temp_im];
             re2 = re1[i := mm_add_ps ops (re1 ! i) temp_re];
             im2 = im1[i := mm_add_ps ops (im1 ! i) temp_im]
         in (re2, im2)))"

function butterflies :: "'f arith \<Rightarrow> 'f cplx \<Rightarrow> nat \<Rightarrow> nat \<Rightarrow> nat \<Rightarrow> 'f cplx
    \<Rightarrow> 'f m128 list \<times> 'f m128 list \<Rightarrow> 'f m128 list \<times> 'f m128 list" where
  "butterflies ops wp N off i w s =
     (if i < N div 2 then
        (case w_lanes ops wp SSE_DIV w of (w_re, w_im, w') \<Rightarrow>
           butterflies ops wp N off (Suc i) w'
             (butterfly ops (off + i) (off + (i + N div 2)) w_re w_im s))
      else s)"
  by pat_completeness auto
termination
  by (relation "measure (\<lambda>(ops, wp, N, off, i, w, s). N div 2 - i)") auto

definition sse_danielson_lanczos_1 :: "(int \<Rightarrow> 'f cplx list \<Rightarrow> 'f cplx list) \<Rightarrow> int \<Rightarrow> nat
    \<Rightarrow> 'f m128 list \<times> 'f m128 list \<Rightarrow> 'f m128 list \<times> 'f m128 list" where
  "sse_danielson_lanczos_1 next_apply SIGN off s =
     (case s of (data_re, data_im) \<Rightarrow>
        (let re = data_re ! off;
             im = data_re ! off;
             data = map (\<lambda>i. (re ! i, im ! i)) [0..<SSE_DIV];
             data' = next_apply SIGN data;
             re' = map (\<lambda>i. fst (data' ! i)) [0..<SSE_DIV];
             im' = map (\<lambda>i. snd (data' ! i)) [0..<SSE_DIV]
         in (data_re[off := re'], data_im[off := im'])))"

fun sse_danielson_lanczos :: "'f arith \<Rightarrow> (int \<Rightarrow> 'f cplx list \<Rightarrow> 'f cplx list) \<Rightarrow> nat \<Rightarrow> int \<Rightarrow> nat
    \<Rightarrow> 'f m128 list \<times> 'f m128 list \<Rightarrow> ('f m128 list \<times> 'f m128 list) option" where
  "sse_danielson_lanczos ops next_apply N SIGN off s =
     (if N = 0 \<or> length (fst s) < off + N \<or> length (snd s) < off + N then None
      else if N = 1 then Some (sse_danielson_lanczos_1 next_apply SIGN off s)
      else
        (case sse_danielson_lanczos ops next_apply (N div 2) SIGN off s of
           None \<Rightarrow> None
         | Some s1 \<Rightarrow>
            (case sse_danielson_lanczos ops next_apply (N div 2) SIGN (off + N div 2) s1 of
               None \<Rightarrow> None
             | Some s2 \<Rightarrow>
                 Some (butterflies ops (twiddle_wp ops N SIGN) N off 0 (f_num ops 1, f_num ops 0) s2))))"

definition SSE_N :: "nat \<Rightarrow> nat" where
  "SSE_N BITS = (2 ^ BITS - 1) div SSE_DIV + 1"

definition load :: "'f arith \<Rightarrow> nat \<Rightarrow> 'f cplx list \<Rightarrow> 'f m128 list \<times> 'f m128 list" where
  "load ops BITS data =
     (map (\<lambda>i. map (\<lambda>j. let idx = i * SSE_DIV + j
                        in if idx < 2 ^ BITS then fst (data ! idx) else f_num ops 0) [0..<SSE_DIV])
          [0..<SSE_N BITS],
      map (\<lambda>i. map (\<lambda>j. let idx = i * SSE_DIV + j
                        in if idx < 2 ^ BITS then snd (data ! idx) else f_num ops 0) [0..<SSE_DIV])
          [0..<SSE_N BITS])"

definition save_lane :: "nat \<Rightarrow> nat \<Rightarrow> 'f m128 \<Rightarrow> 'f m128 \<Rightarrow> nat \<Rightarrow> 'f cplx list \<Rightarrow> 'f cplx list" where
  "save_lane BITS i buf_re buf_im j d =
     (let idx = i * SSE_DIV + j
      in if idx \<ge> 2 ^ BITS then d else d[idx := (buf_re ! j, buf_im ! j)])"

definition save_vector :: "nat \<Rightarrow> 'f m128 list \<times> 'f m128 list \<Rightarrow> nat \<Rightarrow> 'f cplx list \<Rightarrow> 'f cplx list" where
  "save_vector BITS s i d =
     fold (save_lane BITS i (fst s ! i) (snd s ! i)) [0..<SSE_DIV] d"

definition save :: "nat \<Rightarrow> 'f m128 list \<times> 'f m128 list \<Rightarrow> 'f cplx list \<Rightarrow> 'f cplx list" where
  "save BITS s data = fold (save_vector BITS s) [0..<SSE_N BITS] data"

definition fft :: "'f arith \<Rightarrow> (int \<Rightarrow> 'f cplx list \<Rightarrow> 'f cplx list) \<Rightarrow> nat \<Rightarrow> 'f cplx list
    \<Rightarrow> 'f cplx list option" where
  "fft ops next_apply BITS data =
     (let data1 = scramble BITS data;
          s = load ops BITS data1 in
      case sse_danielson_lanczos ops next_apply (SSE_N BITS div 2) 1 0 s of
        None \<Rightarrow> None
      | Some s1 \<Rightarrow>
         (case sse_danielson_lanczos ops next_apply (SSE_N BITS div 2) 1 (SSE_N BITS div 2) s1 of
            None \<Rightarrow> None
          | Some s2 \<Rightarrow> Some (save BITS s2 data1)))"

definition ifft :: "'f arith \<Rightarrow> (int \<Rightarrow> 'f cplx list \<Rightarrow> 'f cplx list) \<Rightarrow> nat \<Rightarrow> 'f cplx list
    \<Rightarrow> 'f cplx list option" where
  "ifft ops next_apply BITS data =
     (let data1 = scramble BITS data;
          s = load ops BITS data1 in
      case sse_danielson_lanczos ops next_apply (SSE_N BITS div 2) (- 1) 0 s of
        None \<Rightarrow> None
      | Some s1 \<Rightarrow>
         (case sse_danielson_lanczos ops next_apply (SSE_N BITS div 2) (- 1) (SSE_N BITS div 2) s1 of
            None \<Rightarrow> None
          | Some s2 \<Rightarrow>
              (let n = mm_set_ps1 (f_num ops (2 ^ BITS));
                   s3 = (map (\<lambda>v. mm_div_ps ops v n) (fst s2), map (\<lambda>v. mm_div_ps ops v n) (snd s2))
               in Some (save BITS s3 data1))))"

section \<open>MDCT kernel\<close>

text \<open>
  \<^verbatim>\<open>mdct_context<BITS, window_func_type, T>\<close> with \<open>N = 1 << BITS\<close>, \<open>M = N / 2\<close> and
  \<open>N4 = N / 4\<close>. The element type \<^verbatim>\<open>T\<close> is a template parameter; it is instantiated with
  the real numbers, so the arithmetic is exact and the properties below say what the
  algorithm computes, rounding aside. The array \<^verbatim>\<open>data\<close> is a list of \<open>N\<close> reals and
  \<^verbatim>\<open>fft.data\<close> a list of \<open>N4\<close> complex numbers.

  \<open>mdct\<close> is \<^verbatim>\<open>mdct(bool inversion)\<close>, each of its loops a function of its own:
  \<open>forward_rotate\<close> fills the local array \<^verbatim>\<open>rotate\<close>, \<open>forward_pre\<close> and \<open>inverse_pre\<close>
  fill \<^verbatim>\<open>fft.data\<close> (the pre-rotation), \<open>post_rotation c\<close> is the loop after
  \<^verbatim>\<open>fft.fft(false)\<close> with the factor \<^verbatim>\<open>c / sqrt_N\<close> (\<open>c = 2\<close> forward, \<open>c = 8\<close>
  inverse), \<open>forward_store\<close> writes the coefficients into \<^verbatim>\<open>data\<close>, \<open>inverse_store\<close>
  and \<open>inverse_odd\<close> fill the even and then the odd positions of \<^verbatim>\<open>rotate\<close> (every
  position is written before it is read, so the initial content of the uninitialised array
  does not matter; it is zero here), and \<open>inverse_shift\<close> is the final copy into
  \<^verbatim>\<open>data\<close>. \<open>polar\<close> is \<^verbatim>\<open>std::polar\<close> and \<open>rotation BITS t\<close> the value of the local
  \<^verbatim>\<open>a\<close>. \<open>apply_window\<close> is \<^verbatim>\<open>apply()\<close> (a reserved word here), with the cache
  \<^verbatim>\<open>window_func.cache\<close> as the function \<open>W\<close> it was filled from.
\<close>

text \<open>
  Modelled from the spec: the transform \<^verbatim>\<open>fft_context<BITS - 2, T>::fft(false)\<close> of the
  generic \<^verbatim>\<open>fft_context.h\<close>, which is not among the sources. The spec calls it a radix-2
  Cooley--Tukey FFT; it is taken to compute the discrete Fourier transform with the kernel
  \<open>exp (- 2 \<pi> i k n / N)\<close> and no scaling.
\<close>

definition dft :: "complex list \<Rightarrow> complex list" where
  "dft xs = map (\<lambda>k. \<Sum>n < length xs. xs ! n * cis (- 2 * pi * real k * real n / real (length xs)))
              [0..<length xs]"

definition polar :: "real \<Rightarrow> real \<Rightarrow> complex" where
  "polar r theta = Complex (r * cos theta) (r * sin theta)"

definition rotation :: "nat \<Rightarrow> nat \<Rightarrow> complex" where
  "rotation BITS t = polar 1 (2 * pi * (real t + 0.125) / real (2 ^ BITS :: nat))"

definition forward_rotate :: "nat \<Rightarrow> real list \<Rightarrow> real list" where
  "forward_rotate BITS data =
     (let N = 2 ^ BITS; N4 = N div 4
      in map (\<lambda>t. if t < N4 then - (data ! (t + 3 * N4)) else data ! (t - N4)) [0..<N])"

definition forward_pre :: "nat \<Rightarrow> real list \<Rightarrow> complex list" where
  "forward_pre BITS rot =
     (let N = 2 ^ BITS; M = N div 2; N4 = N div 4
      in map (\<lambda>t.
           let re = (rot ! (t * 2) - rot ! (N - 1 - t * 2)) / 2;
               im = (rot ! (M + t * 2) - rot ! (M - 1 - t * 2)) / (- 2);
               a = rotation BITS t
           in Complex (re * Re a + im * Im a) (- re * Im a + im * Re a)) [0..<N4])"

definition post_rotation :: "real \<Rightarrow> nat \<Rightarrow> complex list \<Rightarrow> complex list" where
  "post_rotation c BITS fft_data =
     (let N = 2 ^ BITS; N4 = N div 4; sqrt_N = sqrt (real N)
      in map (\<lambda>t.
           let a = rotation BITS t;
               f = fft_data ! t
           in Complex (c / sqrt_N * (Re f * Re a + Im f * Im a))
                      (c / sqrt_N * (- Re f * Im a + Im f * Re a))) [0..<N4])"

definition forward_store :: "nat \<Rightarrow> complex list \<Rightarrow> real list \<Rightarrow> real list" where
  "forward_store BITS fft_data data =
     (let N = 2 ^ BITS; M = N div 2; N4 = N div 4
      in fold (\<lambda>t d. d[2 * t := Re (fft_data ! t), M - 2 * t - 1 := - Im (fft_data ! t)])
           [0..<N4] data)"

definition inverse_pre :: "nat \<Rightarrow> real list \<Rightarrow> complex list" where
  "inverse_pre BITS data =
     (let N = 2 ^ BITS; M = N div 2; N4 = N div 4
      in map (\<lambda>t.
           let re = data ! (t * 2) / 2;
               im = data ! (M - 1 - t * 2) / 2;
               a = rotation BITS t
           in Complex (re * Re a + im * Im a) (- re * Im a + im * Re a)) [0..<N4])"

definition inverse_store :: "nat \<Rightarrow> complex list \<Rightarrow> real list" where
  "inverse_store BITS fft_data =
     (let N = 2 ^ BITS; M = N div 2; N4 = N div 4
      in fold (\<lambda>t r. r[2 * t := Re (fft_data ! t), M + 2 * t := Im (fft_data ! t)])
           [0..<N4] (replicate N 0))"

definition inverse_odd :: "nat \<Rightarrow> real list \<Rightarrow> real list" where
  "inverse_odd BITS rot =
     (let N = 2 ^ BITS; M = N div 2
      in fold (\<lambda>s r. let t = 2 * s + 1 in r[t := - (r ! (N - t - 1))]) [0..<M] rot)"

definition inverse_shift :: "nat \<Rightarrow> real list \<Rightarrow> real list" where
  "inverse_shift BITS rot =
     (let N = 2 ^ BITS; N4 = N div 4
      in map (\<lambda>t. if t < 3 * N4 then rot ! (t + N4) else - (rot ! (t - 3 * N4))) [0..<N])"

definition mdct :: "nat \<Rightarrow> bool \<Rightarrow> real list \<Rightarrow> real list" where
  "mdct BITS inversion data =
     (if \<not> inversion then
        forward_store BITS
          (post_rotation 2 BITS (dft (forward_pre BITS (forward_rotate BITS data)))) data
      else
        inverse_shift BITS (inverse_odd BITS (inverse_store BITS
          (post_rotation 8 BITS (dft (inverse_pre BITS data))))))"


section \<open>Object: the two multimaps of sources\<close>

text \<open>
  A \<^verbatim>\<open>Source*\<close> is an address; the live \<^verbatim>\<open>Source\<close> objects are a partial map from
  addresses, so that \<^verbatim>\<open>delete\<close> removes an address and a dereference of a dead address
  (undefined behaviour in C++) is the result \<open>None\<close>. Of \<^verbatim>\<open>Source\<close> (declared in
  \<^verbatim>\<open>source.h\<close>, not among the sources) the code of \<^verbatim>\<open>Object\<close> touches the member
  \<^verbatim>\<open>loop\<close> and calls \<^verbatim>\<open>fade_out(float)\<close>: the record has the one field and is
  extensible, and \<^verbatim>\<open>Source::fade_out\<close> is the parameter \<open>fade_out\<close>. The \<^verbatim>\<open>float\<close>
  argument is only compared with zero and passed on; it is a real number here.

  A \<^verbatim>\<open>std::multimap<K, Source*>\<close> is the list of its entries in iteration order, which is
  sorted by key; \<open>lower_bound\<close> and \<open>upper_bound\<close> return positions in that list, and
  \<open>range_of\<close> is the iterator range between them. \<open>insert_mm\<close> inserts at the upper bound
  of the key, as \<^verbatim>\<open>std::multimap::insert\<close> does.

  The two overloads of each method (by name and by index) have the same body; the loops are
  shared functions on a list of entries, and the methods apply them to \<^verbatim>\<open>named_sources\<close> or
  \<^verbatim>\<open>indexed_sources\<close>. The default arguments of \<^verbatim>\<open>cancel_all()\<close> are declared in
  \<^verbatim>\<open>object.h\<close>, which is not among the sources, so \<open>destructor\<close> and \<open>autodelete\<close>
  take them as parameters; \<^verbatim>\<open>Context::delete_object\<close> is the parameter \<open>delete_object\<close>
  acting on the state of the owning \<^verbatim>\<open>Context\<close>. The \<^verbatim>\<open>AudioLocker\<close> guards have no effect
  on the values computed and are left out.
\<close>

type_synonym ptr = nat

record source =
  loop :: bool

definition lower_bound :: "'k::linorder \<Rightarrow> ('k \<times> 'v) list \<Rightarrow> nat" where
  "lower_bound k xs = length (takeWhile (\<lambda>e. fst e < k) xs)"

definition upper_bound :: "'k::linorder \<Rightarrow> ('k \<times> 'v) list \<Rightarrow> nat" where
  "upper_bound k xs = length (takeWhile (\<lambda>e. fst e \<le> k) xs)"

definition range_of :: "'k::linorder \<Rightarrow> ('k \<times> 'v) list \<Rightarrow> ('k \<times> 'v) list" where
  "range_of k xs = take (upper_bound k xs - lower_bound k xs) (drop (lower_bound k xs) xs)"

definition insert_mm :: "'k::linorder \<times> 'v \<Rightarrow> ('k \<times> 'v) list \<Rightarrow> ('k \<times> 'v) list" where
  "insert_mm e xs = take (upper_bound (fst e) xs) xs @ [e] @ drop (upper_bound (fst e) xs) xs"

fun get_loop_for :: "('k \<times> ptr) list \<Rightarrow> (ptr \<rightharpoonup> 'a source_scheme) \<Rightarrow> bool option" where
  "get_loop_for [] h = Some False"
| "get_loop_for ((k, p) # r) h =
     (case h p of None \<Rightarrow> None
      | Some s \<Rightarrow> if loop s then Some True else get_loop_for r h)"

fun set_loop_for :: "bool \<Rightarrow> bool \<Rightarrow> ('k \<times> ptr) list \<Rightarrow> (ptr \<rightharpoonup> 'a source_scheme)
    \<Rightarrow> (ptr \<rightharpoonup> 'a source_scheme) option" where
  "set_loop_for first flag [] h = Some h"
| "set_loop_for first flag ((k, p) # r) h =
     (case h p of None \<Rightarrow> None
      | Some s \<Rightarrow> set_loop_for False flag r (h(p \<mapsto> s\<lparr>loop := (if first then flag else False)\<rparr>)))"

fun cancel_for :: "(real \<Rightarrow> 'a source_scheme \<Rightarrow> 'a source_scheme) \<Rightarrow> real \<Rightarrow> ('k \<times> ptr) list
    \<Rightarrow> (ptr \<rightharpoonup> 'a source_scheme) \<Rightarrow> (('k \<times> ptr) list \<times> (ptr \<rightharpoonup> 'a source_scheme)) option" where
  "cancel_for fade_out fadeout [] h = Some ([], h)"
| "cancel_for fade_out fadeout ((k, p) # r) h =
     (if fadeout = 0 then
        (case h p of None \<Rightarrow> None
         | Some s \<Rightarrow> cancel_for fade_out fadeout r (h(p := None)))
      else
        (case h p of None \<Rightarrow> None
         | Some s \<Rightarrow>
            (case cancel_for fade_out fadeout r (if loop s then h(p \<mapsto> fade_out fadeout s) else h) of
               None \<Rightarrow> None
             | Some (r', h') \<Rightarrow> Some ((k, p) # r', h'))))"

fun cancel_all_for :: "(real \<Rightarrow> 'a source_scheme \<Rightarrow> 'a source_scheme) \<Rightarrow> bool \<Rightarrow> real
    \<Rightarrow> ('k \<times> ptr) list \<Rightarrow> (ptr \<rightharpoonup> 'a source_scheme) \<Rightarrow> (ptr \<rightharpoonup> 'a source_scheme) option" where
  "cancel_all_for fade_out force fadeout [] h = Some h"
| "cancel_all_for fade_out force fadeout ((k, p) # r) h =
     (case h p of None \<Rightarrow> None
      | Some s \<Rightarrow>
          if force then cancel_all_for fade_out force fadeout r (h(p := None))
          else cancel_all_for fade_out force fadeout r
                 (if loop s then h(p \<mapsto> fade_out fadeout s) else h))"

definition cancel_all_sources :: "(real \<Rightarrow> 'a source_scheme \<Rightarrow> 'a source_scheme) \<Rightarrow> bool \<Rightarrow> real
    \<Rightarrow> ('k \<times> ptr) list \<Rightarrow> (ptr \<rightharpoonup> 'a source_scheme)
    \<Rightarrow> (('k \<times> ptr) list \<times> (ptr \<rightharpoonup> 'a source_scheme)) option" where
  "cancel_all_sources fade_out force fadeout xs h =
     (case cancel_all_for fade_out force fadeout xs h of
        None \<Rightarrow> None
      | Some h' \<Rightarrow> Some (if force then [] else xs, h'))"

definition cancel_sources :: "(real \<Rightarrow> 'a source_scheme \<Rightarrow> 'a source_scheme) \<Rightarrow> 'k::linorder \<Rightarrow> real
    \<Rightarrow> ('k \<times> ptr) list \<Rightarrow> (ptr \<rightharpoonup> 'a source_scheme)
    \<Rightarrow> (('k \<times> ptr) list \<times> (ptr \<rightharpoonup> 'a source_scheme)) option" where
  "cancel_sources fade_out k fadeout xs h =
     (case cancel_for fade_out fadeout (range_of k xs) h of
        None \<Rightarrow> None
      | Some (r', h') \<Rightarrow>
          Some (take (lower_bound k xs) xs @ r' @ drop (upper_bound k xs) xs, h'))"

record ('a, 'c) object =
  sources :: "ptr \<rightharpoonup> 'a source_scheme"
  named_sources :: "(string \<times> ptr) list"
  indexed_sources :: "(int \<times> ptr) list"
  dead :: bool
  ctx :: 'c

definition play_name :: "string \<Rightarrow> ptr \<Rightarrow> ('a, 'c) object \<Rightarrow> ('a, 'c) object" where
  "play_name name source st = st\<lparr>named_sources := insert_mm (name, source) (named_sources st)\<rparr>"

definition play_index :: "int \<Rightarrow> ptr \<Rightarrow> ('a, 'c) object \<Rightarrow> ('a, 'c) object" where
  "play_index index source st = st\<lparr>indexed_sources := insert_mm (index, source) (indexed_sources st)\<rparr>"

definition cancel_name :: "(real \<Rightarrow> 'a source_scheme \<Rightarrow> 'a source_scheme) \<Rightarrow> string \<Rightarrow> real
    \<Rightarrow> ('a, 'c) object \<Rightarrow> ('a, 'c) object option" where
  "cancel_name fade_out name fadeout st =
     (case cancel_sources fade_out name fadeout (named_sources st) (sources st) of
        None \<Rightarrow> None
      | Some (xs', h') \<Rightarrow> Some (st\<lparr>sources := h', named_sources := xs'\<rparr>))"

definition cancel_index :: "(real \<Rightarrow> 'a source_scheme \<Rightarrow> 'a source_scheme) \<Rightarrow> int \<Rightarrow> real
    \<Rightarrow> ('a, 'c) object \<Rightarrow> ('a, 'c) object option" where
  "cancel_index fade_out index fadeout st =
     (case cancel_sources fade_out index fadeout (indexed_sources st) (sources st) of
        None \<Rightarrow> None
      | Some (xs', h') \<Rightarrow> Some (st\<lparr>sources := h', indexed_sources := xs'\<rparr>))"

definition get_loop_name :: "string \<Rightarrow> ('a, 'c) object \<Rightarrow> bool option" where
  "get_loop_name name st = get_loop_for (range_of name (named_sources st)) (sources st)"

definition get_loop_index :: "int \<Rightarrow> ('a, 'c) object \<Rightarrow> bool option" where
  "get_loop_index index st = get_loop_for (range_of index (indexed_sources st)) (sources st)"

definition set_loop_name :: "string \<Rightarrow> bool \<Rightarrow> ('a, 'c) object \<Rightarrow> ('a, 'c) object option" where
  "set_loop_name name flag st =
     (case set_loop_for True flag (range_of name (named_sources st)) (sources st) of
        None \<Rightarrow> None
      | Some h' \<Rightarrow> Some (st\<lparr>sources := h'\<rparr>))"

definition set_loop_index :: "int \<Rightarrow> bool \<Rightarrow> ('a, 'c) object \<Rightarrow> ('a, 'c) object option" where
  "set_loop_index index flag st =
     (case set_loop_for True flag (range_of index (indexed_sources st)) (sources st) of
        None \<Rightarrow> None
      | Some h' \<Rightarrow> Some (st\<lparr>sources := h'\<rparr>))"

definition cancel_all :: "(real \<Rightarrow> 'a source_scheme \<Rightarrow> 'a source_scheme) \<Rightarrow> bool \<Rightarrow> real
    \<Rightarrow> ('a, 'c) object \<Rightarrow> ('a, 'c) object option" where
  "cancel_all fade_out force fadeout st =
     (case cancel_all_sources fade_out force fadeout (indexed_sources st) (sources st) of
        None \<Rightarrow> None
      | Some (is', h1) \<Rightarrow>
         (case cancel_all_sources fade_out force fadeout (named_sources st) h1 of
            None \<Rightarrow> None
          | Some (ns', h2) \<Rightarrow>
              Some (st\<lparr>sources := h2, named_sources := ns', indexed_sources := is'\<rparr>)))"

definition destructor :: "(real \<Rightarrow> 'a source_scheme \<Rightarrow> 'a source_scheme) \<Rightarrow> ('c \<Rightarrow> 'c) \<Rightarrow> bool \<Rightarrow> real
    \<Rightarrow> ('a, 'c) object \<Rightarrow> ('a, 'c) object option" where
  "destructor fade_out delete_object default_force default_fadeout st =
     (if dead st then Some st
      else
        (case cancel_all fade_out default_force default_fadeout st of
           None \<Rightarrow> None
         | Some st' \<Rightarrow> Some (st'\<lparr>ctx := delete_object (ctx st')\<rparr>)))"

definition autodelete :: "(real \<Rightarrow> 'a source_scheme \<Rightarrow> 'a source_scheme) \<Rightarrow> bool \<Rightarrow> real
    \<Rightarrow> ('a, 'c) object \<Rightarrow> ('a, 'c) object option" where
  "autodelete fade_out default_force default_fadeout st =
     (case cancel_all fade_out default_force default_fadeout st of
        None \<Rightarrow> None
      | Some st' \<Rightarrow> Some (st'\<lparr>dead := True\<rparr>))"

section \<open>Notions used to state the properties\<close>

text \<open>
  \<open>bitrev b i\<close> is the index obtained from \<open>i\<close> by reversing its lowest \<open>b\<close> bits, and
  \<open>scrambled_upto\<close> the loop invariant of \<open>scramble_for\<close>: the pairs \<open>(k, bitrev b k)\<close>
  whose larger member is below \<open>i\<close> have been exchanged. \<open>agree D s s'\<close> relates two
  states of the SSE transform that have the same real vectors and whose imaginary vectors
  differ at most at the positions in \<open>D\<close>. \<open>under_key k xs\<close> lists the sources stored under
  key \<open>k\<close>, \<open>owned\<close> is the set of all sources of an object, and \<open>object_inv\<close> is the
  invariant of an \<^verbatim>\<open>Object\<close>: the maps are sorted by key, every source is owned once, and
  every owned source is alive.
\<close>

fun bitrev :: "nat \<Rightarrow> nat \<Rightarrow> nat" where
  "bitrev 0 i = 0"
| "bitrev (Suc b) i = (i mod 2) * 2 ^ b + bitrev b (i div 2)"

definition scrambled_upto :: "nat \<Rightarrow> 'a list \<Rightarrow> nat \<Rightarrow> 'a list \<Rightarrow> bool" where
  "scrambled_upto b xs i data \<longleftrightarrow>
     length data = 2 ^ b \<and>
     (\<forall>k < 2 ^ b. data ! k = (if max k (bitrev b k) < i then xs ! bitrev b k else xs ! k))"

definition agree_on :: "nat set \<Rightarrow> 'a list \<Rightarrow> 'a list \<Rightarrow> bool" where
  "agree_on D xs ys \<longleftrightarrow> length xs = length ys \<and> (\<forall>k < length xs. k \<notin> D \<longrightarrow> xs ! k = ys ! k)"

definition agree :: "nat set \<Rightarrow> 'f m128 list \<times> 'f m128 list \<Rightarrow> 'f m128 list \<times> 'f m128 list \<Rightarrow> bool" where
  "agree D s s' \<longleftrightarrow> fst s = fst s' \<and> agree_on D (snd s) (snd s')"

definition both_halves :: "'f arith \<Rightarrow> (int \<Rightarrow> 'f cplx list \<Rightarrow> 'f cplx list) \<Rightarrow> nat \<Rightarrow> int
    \<Rightarrow> 'f m128 list \<times> 'f m128 list \<Rightarrow> ('f m128 list \<times> 'f m128 list) option" where
  "both_halves ops next_apply n SIGN s =
     (case sse_danielson_lanczos ops next_apply n SIGN 0 s of
        None \<Rightarrow> None
      | Some s1 \<Rightarrow> sse_danielson_lanczos ops next_apply n SIGN n s1)"

definition under_key :: "'k \<Rightarrow> ('k \<times> ptr) list \<Rightarrow> ptr list" where
  "under_key k xs = map snd (filter (\<lambda>e. fst e = k) xs)"

definition owned :: "('a, 'c) object \<Rightarrow> ptr set" where
  "owned st = snd ` set (named_sources st) \<union> snd ` set (indexed_sources st)"

definition object_inv :: "('a, 'c) object \<Rightarrow> bool" where
  "object_inv st \<longleftrightarrow>
     sorted (map fst (named_sources st)) \<and> sorted (map fst (indexed_sources st)) \<and>
     distinct (map snd (named_sources st) @ map snd (indexed_sources st)) \<and>
     owned st \<subseteq> dom (sources st)"

definition faded :: "(real \<Rightarrow> 'a source_scheme \<Rightarrow> 'a source_scheme) \<Rightarrow> real \<Rightarrow> ptr set
    \<Rightarrow> (ptr \<rightharpoonup> 'a source_scheme) \<Rightarrow> (ptr \<rightharpoonup> 'a source_scheme)" where
  "faded fade_out fadeout A h =
     (\<lambda>p. if p \<in> A then map_option (\<lambda>s. if loop s then fade_out fadeout s else s) (h p) else h p)"







section \<open>A concrete object\<close>

text \<open>
  An object with three named and two indexed sources, used to instantiate the theorems.
\<close>

record fading_source = source +
  fading :: "real option"

definition example_fade_out :: "real \<Rightarrow> fading_source \<Rightarrow> fading_source" where
  "example_fade_out fadeout s = s\<lparr>fading := Some fadeout\<rparr>"

definition example_object :: "(\<lparr>fading :: real option\<rparr>, nat) object" where
  "example_object =
     \<lparr>sources = [10 \<mapsto> \<lparr>loop = False, fading = None\<rparr>, 11 \<mapsto> \<lparr>loop = True, fading = None\<rparr>,
                 12 \<mapsto> \<lparr>loop = True, fading = None\<rparr>, 13 \<mapsto> \<lparr>loop = True, fading = None\<rparr>,
                 14 \<mapsto> \<lparr>loop = False, fading = None\<rparr>],
      named_sources = [(''fire'', 10), (''fire'', 11), (''walk'', 12)],
      indexed_sources = [(7, 13), (7, 14)],
      dead = False, ctx = 1\<rparr>"

section \<open>The scramble is the bit-reversal permutation\<close>

lemma bitrev_zero: "bitrev b 0 = 0"
  by (induction b) simp_all

lemma bitrev_less: "bitrev b i < 2 ^ b"
proof (induction b arbitrary: i)
  case 0 show ?case by simp
next
  case (Suc b)
  have "bitrev b (i div 2) < 2 ^ b" by (rule Suc.IH)
  then show ?case by (cases "i mod 2 = 0") auto
qed

lemma div_pow_split:
  assumes "k \<le> b"
  shows "(x * 2 ^ b + y) div 2 ^ k = x * 2 ^ (b - k) + y div (2::nat) ^ k"
proof -
  from assms have "x * 2 ^ b = x * 2 ^ (b - k) * (2::nat) ^ k"
    by (simp add: power_add [symmetric])
  then have "(x * 2 ^ b + y) div 2 ^ k = (x * 2 ^ (b - k) * 2 ^ k + y) div 2 ^ k"
    by (simp only:)
  also have "\<dots> = x * 2 ^ (b - k) + y div 2 ^ k"
    by (rule div_mult_self3) simp
  finally show ?thesis .
qed

lemma bit_bitrev: "k < b \<Longrightarrow> bit (bitrev b i) k = bit i (b - 1 - k)"
proof (induction b arbitrary: i k)
  case 0 then show ?case by simp
next
  case (Suc b)
  have lt: "bitrev b (i div 2) < 2 ^ b" by (rule bitrev_less)
  show ?case
  proof (cases "k = b")
    case True
    have "(i mod 2 * 2 ^ b + bitrev b (i div 2)) div 2 ^ b = i mod 2"
      using lt by simp
    then show ?thesis using True by (simp add: bit_iff_odd)
  next
    case False
    with Suc.prems have kb: "k < b" by simp
    have "(i mod 2 * 2 ^ b + bitrev b (i div 2)) div 2 ^ k
          = i mod 2 * 2 ^ (b - k) + bitrev b (i div 2) div 2 ^ k"
      using kb by (simp add: div_pow_split)
    moreover have "even (i mod 2 * 2 ^ (b - k))" using kb by simp
    ultimately have "bit (bitrev (Suc b) i) k = bit (bitrev b (i div 2)) k"
      by (simp add: bit_iff_odd)
    also have "\<dots> = bit (i div 2) (b - 1 - k)" using kb by (rule Suc.IH)
    also have "\<dots> = bit i (Suc b - 1 - k)" using kb
      by (metis Suc_diff_Suc bit_Suc diff_Suc_1 diff_Suc_eq_diff_pred)
    finally show ?thesis .
  qed
qed

lemma bitrev_bitrev: "i < 2 ^ b \<Longrightarrow> bitrev b (bitrev b i) = i"
proof (rule bit_eqI)
  fix k
  assume i: "i < 2 ^ b"
  show "bit (bitrev b (bitrev b i)) k = bit i k"
  proof (cases "k < b")
    case True
    then have "bit (bitrev b (bitrev b i)) k = bit (bitrev b i) (b - 1 - k)"
      by (rule bit_bitrev)
    also have "\<dots> = bit i (b - 1 - (b - 1 - k))"
      using True by (intro bit_bitrev) simp
    also have "b - 1 - (b - 1 - k) = k" using True by simp
    finally show ?thesis .
  next
    case False
    then have le: "(2::nat) ^ b \<le> 2 ^ k" by (intro power_increasing) auto
    have "i < 2 ^ k" using i le by (rule order.strict_trans2)
    moreover have "bitrev b (bitrev b i) < 2 ^ k"
      using bitrev_less le by (rule order.strict_trans2)
    ultimately show ?thesis by (simp add: bit_iff_odd)
  qed
qed

lemma scramble_while_bitrev:
  "Suc i < 2 ^ Suc b \<Longrightarrow>
   (case scramble_while (bitrev (Suc b) i) (2 ^ b) of (j, m) \<Rightarrow> j + m) = bitrev (Suc b) (Suc i)"
proof (induction b arbitrary: i)
  case 0
  then have "i = 0" by simp
  then show ?case by simp
next
  case (Suc b)
  have lt: "bitrev (Suc b) (i div 2) < 2 ^ Suc b" by (rule bitrev_less)
  show ?case
  proof (cases "even i")
    case True
    then have "bitrev (Suc (Suc b)) i = bitrev (Suc b) (i div 2)" by simp
    moreover have "Suc i mod 2 = 1" "Suc i div 2 = i div 2"
      using True by presburger+
    then have "bitrev (Suc (Suc b)) (Suc i) = 2 ^ Suc b + bitrev (Suc b) (i div 2)"
      by simp
    ultimately show ?thesis using lt by (simp del: bitrev.simps)
  next
    case False
    then have j: "bitrev (Suc (Suc b)) i = 2 ^ Suc b + bitrev (Suc b) (i div 2)"
      by (simp add: odd_iff_mod_2_eq_one)
    from False Suc.prems have "Suc (i div 2) < 2 ^ Suc b" by (auto elim!: oddE)
    then have IH: "(case scramble_while (bitrev (Suc b) (i div 2)) (2 ^ b) of (j, m) \<Rightarrow> j + m)
        = bitrev (Suc b) (Suc (i div 2))" by (rule Suc.IH)
    have "Suc i mod 2 = 0" "Suc i div 2 = Suc (i div 2)"
      using False by presburger+
    then have "bitrev (Suc (Suc b)) (Suc i) = bitrev (Suc b) (Suc (i div 2))"
      by simp
    then show ?thesis using IH j by (simp del: bitrev.simps)
  qed
qed

lemma scrambled_upto_step:
  assumes inv: "scrambled_upto b xs i data" and i: "i < 2 ^ b"
  shows "scrambled_upto b xs (Suc i)
           (if i > bitrev b i then swap i (bitrev b i) data else data)"
proof -
  let ?r = "bitrev b" and ?j = "bitrev b i"
  have len: "length data = 2 ^ b" using inv by (simp add: scrambled_upto_def)
  have at: "\<And>k. k < 2 ^ b \<Longrightarrow>
      data ! k = (if max k (?r k) < i then xs ! ?r k else xs ! k)"
    using inv by (simp add: scrambled_upto_def)
  have j: "?j < 2 ^ b" by (rule bitrev_less)
  have rj: "?r ?j = i" using i by (rule bitrev_bitrev)
  show ?thesis
  proof (cases "i > ?j")
    case True
    have di: "data ! i = xs ! i" using at [OF i] by simp
    have dj: "data ! ?j = xs ! ?j" using at [OF j] rj by simp
    have "\<And>k. k < 2 ^ b \<Longrightarrow> swap i ?j data ! k =
        (if max k (?r k) < Suc i then xs ! ?r k else xs ! k)"
    proof -
      fix k assume k: "k < (2::nat) ^ b"
      consider "k = i" | "k = ?j" | "k \<noteq> i" "k \<noteq> ?j" by blast
      then show "swap i ?j data ! k = (if max k (?r k) < Suc i then xs ! ?r k else xs ! k)"
      proof cases
        case 1
        then show ?thesis using True len i j dj by (simp add: swap_def)
      next
        case 2
        then show ?thesis using True len i j di rj by (simp add: swap_def)
      next
        case 3
        have "?r k \<noteq> i"
        proof
          assume "?r k = i"
          then have "?r (?r k) = ?j" by simp
          then show False using 3 bitrev_bitrev [OF k] by simp
        qed
        then have "max k (?r k) < Suc i \<longleftrightarrow> max k (?r k) < i" using 3 by auto
        then show ?thesis using 3 len at [OF k] by (simp add: swap_def)
      qed
    qed
    then show ?thesis using True len by (simp add: scrambled_upto_def swap_def)
  next
    case False
    have "\<And>k. k < 2 ^ b \<Longrightarrow> data ! k =
        (if max k (?r k) < Suc i then xs ! ?r k else xs ! k)"
    proof -
      fix k assume k: "k < (2::nat) ^ b"
      show "data ! k = (if max k (?r k) < Suc i then xs ! ?r k else xs ! k)"
      proof (cases "max k (?r k) = i")
        case True
        have "k = i"
        proof (rule ccontr)
          assume "k \<noteq> i"
          with True have "?r k = i" "k < i" by (auto simp: max_def split: if_splits)
          then have "?j = k" using bitrev_bitrev [OF k] by simp
          with \<open>k < i\<close> False show False by simp
        qed
        with True False have "?r k = k" by (auto simp: max_def split: if_splits)
        then show ?thesis using at [OF k] by simp
      next
        case False
        then have "max k (?r k) < Suc i \<longleftrightarrow> max k (?r k) < i" by auto
        then show ?thesis using at [OF k] by simp
      qed
    qed
    then show ?thesis using False len by (simp add: scrambled_upto_def)
  qed
qed

lemma scramble_for_inv:
  "scrambled_upto (Suc b) xs i data \<Longrightarrow> i \<le> 2 ^ Suc b \<Longrightarrow>
   (i < 2 ^ Suc b \<longrightarrow> j = bitrev (Suc b) i) \<Longrightarrow>
   scrambled_upto (Suc b) xs (2 ^ Suc b) (scramble_for (2 ^ Suc b) i j data)"
proof (induction "(2::nat) ^ Suc b - i" arbitrary: i j data)
  case 0
  then have "i = 2 ^ Suc b" by simp
  then show ?case using "0.prems"(1) by simp
next
  case (Suc n)
  then have i: "i < 2 ^ Suc b" by simp
  with Suc.prems have j: "j = bitrev (Suc b) i" by simp
  let ?data = "if i > j then swap i j data else data"
  obtain j' m where w: "scramble_while j (2 ^ Suc b div 2) = (j', m)" by (cases "scramble_while j (2 ^ Suc b div 2)")
  have step: "scrambled_upto (Suc b) xs (Suc i) ?data"
    unfolding j by (rule scrambled_upto_step [OF Suc.prems(1) i])
  have next_j: "Suc i < 2 ^ Suc b \<longrightarrow> j' + m = bitrev (Suc b) (Suc i)"
  proof
    assume "Suc i < 2 ^ Suc b"
    from scramble_while_bitrev [OF this] w j show "j' + m = bitrev (Suc b) (Suc i)"
      by simp
  qed
  have "n = 2 ^ Suc b - Suc i" using Suc.hyps(2) by simp
  from Suc.hyps(1) [OF this step _ next_j] i
  have "scrambled_upto (Suc b) xs (2 ^ Suc b) (scramble_for (2 ^ Suc b) (Suc i) (j' + m) ?data)"
    by simp
  moreover have "scramble_for (2 ^ Suc b) i j data
      = scramble_for (2 ^ Suc b) (Suc i) (j' + m) ?data"
    using i w by (subst scramble_for.simps) (simp add: Let_def)
  ultimately show ?case by simp
qed

lemma scramble_bitrev:
  assumes len: "length xs = 2 ^ b" and k: "k < 2 ^ b"
  shows "scramble b xs ! k = xs ! bitrev b k"
proof (cases b)
  case 0
  then show ?thesis using k by (simp add: scramble_def)
next
  case (Suc b')
  have "scrambled_upto b xs 0 xs" using len by (simp add: scrambled_upto_def)
  then have "scrambled_upto b xs (2 ^ b) (scramble b xs)"
    unfolding scramble_def Suc by (rule scramble_for_inv) (simp_all add: bitrev_zero del: bitrev.simps)
  then show ?thesis using k bitrev_less [of b k] by (simp add: scrambled_upto_def)
qed

text \<open>
  C8. After \<open>scramble\<close>, the element that was at index \<open>i\<close> is at the index whose
  \<open>BITS\<close> low bits are those of \<open>i\<close> in reverse order, for every \<open>i < N = 2 ^ BITS\<close>.
\<close>

theorem scramble_bit_reversal:
  assumes "length xs = 2 ^ BITS" and "i < 2 ^ BITS"
  shows "bitrev BITS i < 2 ^ BITS \<and>
         (\<forall>k < BITS. bit (bitrev BITS i) k = bit i (BITS - 1 - k)) \<and>
         scramble BITS xs ! bitrev BITS i = xs ! i"
  using assms scramble_bitrev [OF assms(1) bitrev_less [of BITS i]]
  by (simp add: bitrev_less bit_bitrev bitrev_bitrev)

theorem scramble_bit_reversal_witness:
  "length [10, 11, 12, 13, 14, 15, 16, 17 :: nat] = 2 ^ 3 \<and> (3 :: nat) < 2 ^ 3 \<and>
   bitrev 3 3 = 6 \<and>
   scramble 3 [10, 11, 12, 13, 14, 15, 16, 17 :: nat] ! 6 = 13"
proof -
  have len: "length [10, 11, 12, 13, 14, 15, 16, 17 :: nat] = 2 ^ 3" by simp
  have i: "(3 :: nat) < 2 ^ 3" by simp
  have r: "bitrev 3 3 = 6" by code_simp
  from scramble_bit_reversal [OF len i] r show ?thesis by simp
qed

section \<open>The SSE transform does not read the imaginary parts\<close>

text \<open>
  The lane-internal level stores \<^verbatim>\<open>*data_re\<close> into both \<^verbatim>\<open>re\<close> and \<^verbatim>\<open>im\<close>, so the
  imaginary vector it is given is overwritten without being read. Every vector passes
  through that level before a butterfly reads it; hence two inputs with the same real parts
  are transformed to the same output, for every arithmetic and every 4-point butterfly.
\<close>

declare scramble_for.simps [simp del]

declare butterflies.simps [simp del]

declare sse_danielson_lanczos.simps [simp del]

lemma agree_on_nth: "agree_on D xs ys \<Longrightarrow> k < length xs \<Longrightarrow> k \<notin> D \<Longrightarrow> xs ! k = ys ! k"
  by (simp add: agree_on_def)

lemma agree_on_update:
  assumes "agree_on D xs ys"
  shows "agree_on (D - {j}) (xs[j := u]) (ys[j := u])"
proof -
  from assms have len: "length ys = length xs"
    and at: "\<And>k. k < length xs \<Longrightarrow> k \<notin> D \<Longrightarrow> xs ! k = ys ! k"
    by (simp_all add: agree_on_def)
  have "\<And>k. k < length xs \<Longrightarrow> k \<notin> D - {j} \<Longrightarrow> xs[j := u] ! k = ys[j := u] ! k"
  proof -
    fix k assume k: "k < length xs" "k \<notin> D - {j}"
    show "xs[j := u] ! k = ys[j := u] ! k"
    proof (cases "k = j")
      case True
      then show ?thesis using k len by simp
    next
      case False
      then show ?thesis using k at [of k] by simp
    qed
  qed
  then show ?thesis using len by (simp add: agree_on_def)
qed

lemma agree_on_mono: "agree_on D xs ys \<Longrightarrow> D \<subseteq> E \<Longrightarrow> agree_on E xs ys"
  by (auto simp: agree_on_def)

lemma agree_base:
  assumes "agree D s s'"
  shows "agree (D - {off}) (sse_danielson_lanczos_1 next_apply SIGN off s)
           (sse_danielson_lanczos_1 next_apply SIGN off s')"
proof -
  obtain re im where s: "s = (re, im)" by (cases s)
  obtain re' im' where s': "s' = (re', im')" by (cases s')
  from assms s s' have eq: "re' = re" and a: "agree_on D im im'"
    by (auto simp: agree_def)
  show ?thesis
    unfolding s s' eq sse_danielson_lanczos_1_def
    using agree_on_update [OF a] by (simp add: agree_def Let_def)
qed

lemma length_base:
  "length (fst (sse_danielson_lanczos_1 next_apply SIGN off s)) = length (fst s) \<and>
   length (snd (sse_danielson_lanczos_1 next_apply SIGN off s)) = length (snd s)"
  by (cases s) (simp add: sse_danielson_lanczos_1_def Let_def)

lemma length_butterfly:
  "length (fst (butterfly ops i j w_re w_im s)) = length (fst s) \<and>
   length (snd (butterfly ops i j w_re w_im s)) = length (snd s)"
  by (cases s) (simp add: butterfly_def Let_def)

lemma length_butterflies:
  "length (fst (butterflies ops wp N off i w s)) = length (fst s) \<and>
   length (snd (butterflies ops wp N off i w s)) = length (snd s)"
proof (induction ops wp N off i w s rule: butterflies.induct)
  case (1 ops wp N off i w s)
  show ?case
  proof (cases "i < N div 2")
    case True
    obtain w_re w_im w' where wl: "w_lanes ops wp SSE_DIV w = (w_re, w_im, w')"
      by (cases "w_lanes ops wp SSE_DIV w")
    show ?thesis
      using True wl "1.IH" [OF True wl [symmetric] refl] length_butterfly
      by (subst (1 2) butterflies.simps) simp
  next
    case False
    then show ?thesis by (subst (1 2) butterflies.simps) simp
  qed
qed

lemma agree_butterfly:
  assumes "agree D s s'" and "i \<notin> D" and "j \<notin> D"
    and "i < length (snd s)" and "j < length (snd s)"
  shows "agree D (butterfly ops i j w_re w_im s) (butterfly ops i j w_re w_im s')"
proof -
  obtain re im where s: "s = (re, im)" by (cases s)
  obtain re' im' where s': "s' = (re', im')" by (cases s')
  from assms s s' have eq: "re' = re" and a: "agree_on D im im'"
    and i: "i < length im" and j: "j < length im"
    by (auto simp: agree_def)
  have ii: "im' ! i = im ! i" and jj: "im' ! j = im ! j"
    using agree_on_nth [OF a] i j assms(2,3) by auto
  define u where "u = mm_sub_ps ops (im ! i)
      (mm_add_ps ops (mm_mul_ps ops (im ! j) w_re) (mm_mul_ps ops (re ! j) w_im))"
  have a1: "agree_on D (im[j := u]) (im'[j := u])"
    using agree_on_update [OF a, of j u] by (rule agree_on_mono) auto
  have i1: "im'[j := u] ! i = im[j := u] ! i"
    using agree_on_nth [OF a1, of i] i assms(2) by simp
  define v where "v = mm_add_ps ops (im[j := u] ! i)
      (mm_add_ps ops (mm_mul_ps ops (im ! j) w_re) (mm_mul_ps ops (re ! j) w_im))"
  have a2: "agree_on D (im[j := u, i := v]) (im'[j := u, i := v])"
    using agree_on_update [OF a1, of i v] by (rule agree_on_mono) auto
  have "butterfly ops i j w_re w_im (re, im') = (fst (butterfly ops i j w_re w_im (re, im)), im'[j := u, i := v])"
    using ii jj i1 by (simp add: butterfly_def Let_def u_def v_def)
  moreover have "snd (butterfly ops i j w_re w_im (re, im)) = im[j := u, i := v]"
    by (simp add: butterfly_def Let_def u_def v_def)
  ultimately show ?thesis unfolding s s' eq using a2 by (simp add: agree_def)
qed

lemma agree_butterflies:
  assumes "agree D s s'" and "\<forall>k. off \<le> k \<and> k < off + N \<longrightarrow> k \<notin> D"
    and "off + N \<le> length (snd s)"
  shows "agree D (butterflies ops wp N off i w s) (butterflies ops wp N off i w s')"
  using assms
proof (induction ops wp N off i w s arbitrary: s' rule: butterflies.induct)
  case (1 ops wp N off i w s)
  show ?case
  proof (cases "i < N div 2")
    case True
    obtain w_re w_im w' where wl: "w_lanes ops wp SSE_DIV w = (w_re, w_im, w')"
      by (cases "w_lanes ops wp SSE_DIV w")
    let ?i = "off + i" and ?j = "off + (i + N div 2)"
    from True have r: "?i < off + N" "?j < off + N" by auto
    then have nd: "?i \<notin> D" "?j \<notin> D" using "1.prems"(2) by auto
    from r "1.prems"(3) have lt: "?i < length (snd s)" "?j < length (snd s)" by auto
    have a: "agree D (butterfly ops ?i ?j w_re w_im s) (butterfly ops ?i ?j w_re w_im s')"
      using "1.prems"(1) nd lt by (rule agree_butterfly)
    have l: "off + N \<le> length (snd (butterfly ops ?i ?j w_re w_im s))"
      using "1.prems"(3) length_butterfly [of ops ?i ?j w_re w_im s] by simp
    from "1.IH" [OF True wl [symmetric] refl a "1.prems"(2) l]
    show ?thesis using True wl by (subst (1 2) butterflies.simps) simp
  next
    case False
    then show ?thesis using "1.prems"(1) by (subst (1 2) butterflies.simps) simp
  qed
qed

lemma sse_unfold_1:
  "sse_danielson_lanczos ops next_apply (Suc 0) SIGN off s =
     (if length (fst s) < off + 1 \<or> length (snd s) < off + 1 then None
      else Some (sse_danielson_lanczos_1 next_apply SIGN off s))"
  by (subst sse_danielson_lanczos.simps) simp

lemma sse_unfold_double:
  "sse_danielson_lanczos ops next_apply (2 ^ Suc k) SIGN off s =
     (if length (fst s) < off + 2 ^ Suc k \<or> length (snd s) < off + 2 ^ Suc k then None
      else
        (case sse_danielson_lanczos ops next_apply (2 ^ k) SIGN off s of
           None \<Rightarrow> None
         | Some s1 \<Rightarrow>
            (case sse_danielson_lanczos ops next_apply (2 ^ k) SIGN (off + 2 ^ k) s1 of
               None \<Rightarrow> None
             | Some s2 \<Rightarrow>
                 Some (butterflies ops (twiddle_wp ops (2 ^ Suc k) SIGN) (2 ^ Suc k) off 0
                         (f_num ops 1, f_num ops 0) s2))))"
proof -
  have "(2::nat) ^ Suc k \<noteq> 0" "(2::nat) ^ Suc k \<noteq> 1" "(2::nat) ^ Suc k div 2 = 2 ^ k"
    by simp_all
  then show ?thesis
    by (subst sse_danielson_lanczos.simps) (simp only: if_False simp_thms)
qed

lemma length_sse:
  "sse_danielson_lanczos ops next_apply (2 ^ k) SIGN off s = Some s1 \<Longrightarrow>
   length (fst s1) = length (fst s) \<and> length (snd s1) = length (snd s)"
proof (induction k arbitrary: off s s1)
  case 0
  then show ?case using length_base [of next_apply SIGN off s]
    by (auto simp: sse_unfold_1 split: if_splits)
next
  case (Suc k)
  from Suc.prems [unfolded sse_unfold_double] obtain sa sb where
    a: "sse_danielson_lanczos ops next_apply (2 ^ k) SIGN off s = Some sa"
    and b: "sse_danielson_lanczos ops next_apply (2 ^ k) SIGN (off + 2 ^ k) sa = Some sb"
    and c: "s1 = butterflies ops (twiddle_wp ops (2 ^ Suc k) SIGN) (2 ^ Suc k) off 0
                         (f_num ops 1, f_num ops 0) sb"
    by (auto simp del: power_Suc split: if_splits option.splits)
  from Suc.IH [OF a] Suc.IH [OF b] c length_butterflies show ?case by metis
qed

lemma sse_returns:
  "off + 2 ^ k \<le> length (fst s) \<Longrightarrow> off + 2 ^ k \<le> length (snd s) \<Longrightarrow>
   \<exists>s1. sse_danielson_lanczos ops next_apply (2 ^ k) SIGN off s = Some s1"
proof (induction k arbitrary: off s)
  case 0
  then show ?case by (simp add: sse_unfold_1)
next
  case (Suc k)
  from Suc.prems have "off + 2 ^ k \<le> length (fst s)" "off + 2 ^ k \<le> length (snd s)" by simp_all
  from Suc.IH [OF this] obtain sa where
    a: "sse_danielson_lanczos ops next_apply (2 ^ k) SIGN off s = Some sa" by blast
  from length_sse [OF a] Suc.prems
  have "(off + 2 ^ k) + 2 ^ k \<le> length (fst sa)" "(off + 2 ^ k) + 2 ^ k \<le> length (snd sa)"
    by simp_all
  from Suc.IH [OF this] obtain sb where
    b: "sse_danielson_lanczos ops next_apply (2 ^ k) SIGN (off + 2 ^ k) sa = Some sb" by blast
  show ?case unfolding sse_unfold_double using Suc.prems a b by (simp del: power_Suc)
qed

lemma agree_sse:
  assumes "agree D s s'" and "length (fst s) = length (snd s)"
  shows "(sse_danielson_lanczos ops next_apply (2 ^ k) SIGN off s = None \<and>
          sse_danielson_lanczos ops next_apply (2 ^ k) SIGN off s' = None) \<or>
         (\<exists>s1 s1'. sse_danielson_lanczos ops next_apply (2 ^ k) SIGN off s = Some s1 \<and>
            sse_danielson_lanczos ops next_apply (2 ^ k) SIGN off s' = Some s1' \<and>
            agree (D - {off ..< off + 2 ^ k}) s1 s1')"
  using assms
proof (induction k arbitrary: off D s s')
  case 0
  from "0.prems" have len: "length (fst s') = length (fst s)" "length (snd s') = length (snd s)"
    by (simp_all add: agree_def agree_on_def)
  have blk: "{off ..< off + 2 ^ 0} = {off}" by auto
  show ?case
  proof (cases "length (fst s) < off + 1 \<or> length (snd s) < off + 1")
    case True
    then show ?thesis using len by (simp add: sse_unfold_1)
  next
    case False
    then have "sse_danielson_lanczos ops next_apply (2 ^ 0) SIGN off s
        = Some (sse_danielson_lanczos_1 next_apply SIGN off s)"
      and "sse_danielson_lanczos ops next_apply (2 ^ 0) SIGN off s'
        = Some (sse_danielson_lanczos_1 next_apply SIGN off s')"
      using len by (simp_all add: sse_unfold_1)
    then show ?thesis unfolding blk
      using agree_base [OF "0.prems"(1), of off next_apply SIGN] by blast
  qed
next
  case (Suc k)
  from Suc.prems have len: "length (fst s') = length (fst s)" "length (snd s') = length (snd s)"
    by (simp_all add: agree_def agree_on_def)
  show ?case
  proof (cases "length (fst s) < off + 2 ^ Suc k \<or> length (snd s) < off + 2 ^ Suc k")
    case True
    then show ?thesis unfolding sse_unfold_double using len by (simp del: power_Suc)
  next
    case False
    then have rng: "off + 2 ^ Suc k \<le> length (fst s)" "off + 2 ^ Suc k \<le> length (snd s)"
      by simp_all
    then have "off + 2 ^ k \<le> length (fst s)" "off + 2 ^ k \<le> length (snd s)" by simp_all
    from sse_returns [OF this] obtain sa where
      a: "sse_danielson_lanczos ops next_apply (2 ^ k) SIGN off s = Some sa" by blast
    with Suc.IH [OF Suc.prems, of off] obtain sa' where
      a': "sse_danielson_lanczos ops next_apply (2 ^ k) SIGN off s' = Some sa'"
      and ra: "agree (D - {off ..< off + 2 ^ k}) sa sa'" by auto
    note la = length_sse [OF a]
    with rng have "(off + 2 ^ k) + 2 ^ k \<le> length (fst sa)" "(off + 2 ^ k) + 2 ^ k \<le> length (snd sa)"
      by simp_all
    from sse_returns [OF this] obtain sb where
      b: "sse_danielson_lanczos ops next_apply (2 ^ k) SIGN (off + 2 ^ k) sa = Some sb" by blast
    from la Suc.prems(2) have "length (fst sa) = length (snd sa)" by simp
    with b Suc.IH [OF ra, of "off + 2 ^ k"] obtain sb' where
      b': "sse_danielson_lanczos ops next_apply (2 ^ k) SIGN (off + 2 ^ k) sa' = Some sb'"
      and rb: "agree (D - {off ..< off + 2 ^ k} - {off + 2 ^ k ..< off + 2 ^ k + 2 ^ k}) sb sb'"
      by auto
    have set_eq: "D - {off ..< off + 2 ^ k} - {off + 2 ^ k ..< off + 2 ^ k + 2 ^ k}
        = D - {off ..< off + 2 ^ Suc k}" by auto
    note lb = length_sse [OF b]
    have clean: "\<forall>i. off \<le> i \<and> i < off + 2 ^ Suc k \<longrightarrow> i \<notin> D - {off ..< off + 2 ^ Suc k}"
      by auto
    have inr: "off + 2 ^ Suc k \<le> length (snd sb)" using rng la lb by simp
    have "agree (D - {off ..< off + 2 ^ Suc k})
        (butterflies ops (twiddle_wp ops (2 ^ Suc k) SIGN) (2 ^ Suc k) off 0 (f_num ops 1, f_num ops 0) sb)
        (butterflies ops (twiddle_wp ops (2 ^ Suc k) SIGN) (2 ^ Suc k) off 0 (f_num ops 1, f_num ops 0) sb')"
      using rb [unfolded set_eq] clean inr by (rule agree_butterflies)
    then show ?thesis unfolding sse_unfold_double using False len a a' b b'
      by (simp del: power_Suc)
  qed
qed

lemma length_swap: "length (swap a b xs) = length xs"
  by (simp add: swap_def)

lemma swap_map: "a < length xs \<Longrightarrow> b < length xs \<Longrightarrow> swap a b (map f xs) = map f (swap a b xs)"
  by (simp add: swap_def map_update)

lemma scramble_for_map:
  "N \<le> length xs \<Longrightarrow> scramble_for N i j (map f xs) = map f (scramble_for N i j xs)"
proof (induction N i j xs rule: scramble_for.induct)
  case (1 N i j data)
  show ?case
  proof (cases "i < N")
    case True
    let ?d = "if i > j then swap i j data else data"
    obtain j' m where w: "scramble_while j (N div 2) = (j', m)"
      by (cases "scramble_while j (N div 2)")
    have len: "N \<le> length ?d" using "1.prems" by (simp add: length_swap)
    have m: "(if i > j then swap i j (map f data) else map f data) = map f ?d"
      using True "1.prems" by (simp add: swap_map)
    have "scramble_for N i j (map f data) = scramble_for N (Suc i) (j' + m) (map f ?d)"
      using True w m by (subst scramble_for.simps) (simp add: Let_def)
    also have "\<dots> = map f (scramble_for N (Suc i) (j' + m) ?d)"
      using "1.IH" [OF True refl refl w [symmetric] len] .
    also have "scramble_for N (Suc i) (j' + m) ?d = scramble_for N i j data"
      using True w by (subst (2) scramble_for.simps) (simp add: Let_def)
    finally show ?thesis .
  next
    case False
    then show ?thesis by (subst (1 2) scramble_for.simps) simp
  qed
qed

lemma length_scramble_for: "length (scramble_for N i j xs) = length xs"
proof (induction N i j xs rule: scramble_for.induct)
  case (1 N i j data)
  show ?case
  proof (cases "i < N")
    case True
    obtain j' m where w: "scramble_while j (N div 2) = (j', m)"
      by (cases "scramble_while j (N div 2)")
    show ?thesis
      using True w "1.IH" [OF True refl refl w [symmetric]]
      by (subst scramble_for.simps) (simp add: Let_def length_swap)
  next
    case False
    then show ?thesis by (subst scramble_for.simps) simp
  qed
qed

lemma scramble_map:
  "length xs = 2 ^ BITS \<Longrightarrow> scramble BITS (map f xs) = map f (scramble BITS xs)"
  by (simp add: scramble_def scramble_for_map)

lemma length_scramble: "length (scramble BITS xs) = length xs"
  by (simp add: scramble_def length_scramble_for)

lemma load_re_cong:
  assumes "length d = 2 ^ BITS" and "length d' = 2 ^ BITS" and "map fst d = map fst d'"
  shows "fst (load ops BITS d) = fst (load ops BITS d')"
proof -
  have "\<And>idx. idx < 2 ^ BITS \<Longrightarrow> fst (d ! idx) = fst (d' ! idx)"
  proof -
    fix idx :: nat assume "idx < 2 ^ BITS"
    then have "fst (d ! idx) = map fst d ! idx" "fst (d' ! idx) = map fst d' ! idx"
      using assms(1,2) by simp_all
    then show "fst (d ! idx) = fst (d' ! idx)" using assms(3) by simp
  qed
  then show ?thesis by (simp add: load_def Let_def)
qed

lemma length_load:
  "length (fst (load ops BITS d)) = SSE_N BITS" "length (snd (load ops BITS d)) = SSE_N BITS"
  by (simp_all add: load_def)

lemma agree_load:
  assumes "length d = 2 ^ BITS" and "length d' = 2 ^ BITS" and "map fst d = map fst d'"
  shows "agree UNIV (load ops BITS d) (load ops BITS d')"
  using load_re_cong [OF assms, of ops] length_load [of ops BITS]
  by (simp add: agree_def agree_on_def)

lemma save_lane_update:
  "length d = 2 ^ BITS \<Longrightarrow>
   save_lane BITS i buf_re buf_im j d = d[i * SSE_DIV + j := (buf_re ! j, buf_im ! j)]"
  by (simp add: save_lane_def Let_def list_update_beyond)

lemma agree_save_lanes:
  assumes "agree_on D d d'" and "length d = 2 ^ BITS"
  shows "agree_on (D - (\<lambda>j. i * SSE_DIV + j) ` set js)
           (fold (save_lane BITS i buf_re buf_im) js d)
           (fold (save_lane BITS i buf_re buf_im) js d') \<and>
         length (fold (save_lane BITS i buf_re buf_im) js d) = 2 ^ BITS"
  using assms
proof (induction js arbitrary: D d d')
  case Nil
  then show ?case by simp
next
  case (Cons j js)
  from Cons.prems have len': "length d' = 2 ^ BITS" by (simp add: agree_on_def)
  let ?u = "\<lambda>d. d[i * SSE_DIV + j := (buf_re ! j, buf_im ! j)]"
  have a: "agree_on (D - {i * SSE_DIV + j}) (?u d) (?u d')"
    using Cons.prems(1) by (rule agree_on_update)
  have l: "length (?u d) = 2 ^ BITS" using Cons.prems(2) by simp
  have "D - {i * SSE_DIV + j} - (\<lambda>j. i * SSE_DIV + j) ` set js
      = D - (\<lambda>j. i * SSE_DIV + j) ` set (j # js)" by auto
  with Cons.IH [OF a l] show ?case
    using Cons.prems(2) len' by (simp add: save_lane_update)
qed

lemma agree_save_vectors:
  assumes "agree_on D d d'" and "length d = 2 ^ BITS"
  shows "agree_on (D - (\<Union>i \<in> set vs. (\<lambda>j. i * SSE_DIV + j) ` {0..<SSE_DIV}))
           (fold (save_vector BITS s) vs d) (fold (save_vector BITS s) vs d') \<and>
         length (fold (save_vector BITS s) vs d) = 2 ^ BITS"
  using assms
proof (induction vs arbitrary: D d d')
  case Nil
  then show ?case by simp
next
  case (Cons i vs)
  from agree_save_lanes [OF Cons.prems, where i = i and buf_re = "fst s ! i"
      and buf_im = "snd s ! i" and js = "[0..<SSE_DIV]"]
  have a: "agree_on (D - (\<lambda>j. i * SSE_DIV + j) ` {0..<SSE_DIV})
      (save_vector BITS s i d) (save_vector BITS s i d')"
    and l: "length (save_vector BITS s i d) = 2 ^ BITS"
    by (simp_all add: save_vector_def)
  have "D - (\<lambda>j. i * SSE_DIV + j) ` {0..<SSE_DIV}
          - (\<Union>i \<in> set vs. (\<lambda>j. i * SSE_DIV + j) ` {0..<SSE_DIV})
      = D - (\<Union>i \<in> set (i # vs). (\<lambda>j. i * SSE_DIV + j) ` {0..<SSE_DIV})" by auto
  with Cons.IH [OF a l] show ?case by simp
qed

lemma save_cong:
  assumes "length d = 2 ^ BITS" and "length d' = 2 ^ BITS"
  shows "save BITS s d = save BITS s d'"
proof -
  have "agree_on UNIV d d'" using assms by (simp add: agree_on_def)
  from agree_save_vectors [OF this assms(1), where s = s and vs = "[0..<SSE_N BITS]"]
  have a: "agree_on (UNIV - (\<Union>i \<in> {0..<SSE_N BITS}. (\<lambda>j. i * SSE_DIV + j) ` {0..<SSE_DIV}))
      (save BITS s d) (save BITS s d')"
    and l: "length (save BITS s d) = 2 ^ BITS"
    by (simp_all add: save_def)
  have cover: "\<And>k. k < 2 ^ BITS \<Longrightarrow>
      k \<in> (\<Union>i \<in> {0..<SSE_N BITS}. (\<lambda>j. i * SSE_DIV + j) ` {0..<SSE_DIV})"
  proof -
    fix k :: nat assume k: "k < 2 ^ BITS"
    then have "k div 4 \<le> (2 ^ BITS - 1) div 4" by (intro div_le_mono) simp
    then have "k div 4 < SSE_N BITS" by (simp add: SSE_N_def SSE_DIV_def)
    moreover have "k = (k div 4) * SSE_DIV + k mod 4" by (simp add: SSE_DIV_def)
    moreover have "k mod 4 \<in> {0..<SSE_DIV}" by (simp add: SSE_DIV_def)
    ultimately show "k \<in> (\<Union>i \<in> {0..<SSE_N BITS}. (\<lambda>j. i * SSE_DIV + j) ` {0..<SSE_DIV})"
      by (metis (no_types, lifting) UN_iff atLeastLessThan_iff image_eqI zero_le)
  qed
  show ?thesis
  proof (rule nth_equalityI)
    show "length (save BITS s d) = length (save BITS s d')" using a by (simp add: agree_on_def)
  next
    fix k assume "k < length (save BITS s d)"
    then have k: "k < 2 ^ BITS" using l by simp
    from agree_on_nth [OF a, of k] cover [OF k] k l
    show "save BITS s d ! k = save BITS s d' ! k" by simp
  qed
qed

lemma agree_empty_eq:
  assumes "agree D s s'" and "\<forall>k < length (snd s). k \<notin> D"
  shows "s = s'"
proof -
  from assms have "fst s = fst s'" and "length (snd s) = length (snd s')"
    and "\<forall>k < length (snd s). snd s ! k = snd s' ! k"
    by (simp_all add: agree_def agree_on_def)
  then have "snd s = snd s'" by (simp add: nth_equalityI)
  with \<open>fst s = fst s'\<close> show ?thesis by (simp add: prod_eq_iff)
qed

lemma SSE_N_pow: "SSE_N (k + 3) = 2 ^ Suc k" "SSE_N (k + 3) div 2 = 2 ^ k"
proof -
  obtain n where n: "(2::nat) ^ Suc k = Suc n" by (cases "(2::nat) ^ Suc k") auto
  have "(2::nat) ^ (k + 3) = 4 * 2 ^ Suc k" by (simp add: power_add)
  then have "(2::nat) ^ (k + 3) - 1 = 3 + n * 4" using n by simp
  then have "((2::nat) ^ (k + 3) - 1) div 4 = n" by simp
  then show "SSE_N (k + 3) = 2 ^ Suc k" using n by (simp add: SSE_N_def SSE_DIV_def)
  then show "SSE_N (k + 3) div 2 = 2 ^ k" by simp
qed

lemma sse_zero: "sse_danielson_lanczos ops next_apply 0 SIGN off s = None"
  by (subst sse_danielson_lanczos.simps) simp

lemma SSE_N_small: "BITS < 3 \<Longrightarrow> SSE_N BITS div 2 = 0"
proof -
  assume "BITS < 3"
  then consider "BITS = 0" | "BITS = 1" | "BITS = 2" by linarith
  then show ?thesis by cases (simp_all add: SSE_N_def SSE_DIV_def)
qed

lemma both_halves_cong:
  assumes a: "agree UNIV s s'" and l: "length (fst s) = 2 ^ Suc k" "length (snd s) = 2 ^ Suc k"
  shows "both_halves ops next_apply (2 ^ k) SIGN s = both_halves ops next_apply (2 ^ k) SIGN s'"
proof -
  from l have ll: "length (fst s) = length (snd s)" by simp
  from agree_sse [OF a ll, of ops next_apply k SIGN 0]
  consider (none) "sse_danielson_lanczos ops next_apply (2 ^ k) SIGN 0 s = None \<and>
      sse_danielson_lanczos ops next_apply (2 ^ k) SIGN 0 s' = None"
    | (some) "\<exists>s1 s1'. sse_danielson_lanczos ops next_apply (2 ^ k) SIGN 0 s = Some s1 \<and>
      sse_danielson_lanczos ops next_apply (2 ^ k) SIGN 0 s' = Some s1' \<and>
      agree (UNIV - {0 ..< 0 + 2 ^ k}) s1 s1'" by blast
  then show ?thesis
  proof cases
    case none
    then show ?thesis by (simp add: both_halves_def)
  next
    case some
    have "\<exists>s1 s1'. sse_danielson_lanczos ops next_apply (2 ^ k) SIGN 0 s = Some s1 \<and>
      sse_danielson_lanczos ops next_apply (2 ^ k) SIGN 0 s' = Some s1' \<and>
      agree (UNIV - {0 ..< 0 + 2 ^ k}) s1 s1'" by (rule some)
    then obtain s1 s1' where
      e1: "sse_danielson_lanczos ops next_apply (2 ^ k) SIGN 0 s = Some s1"
      and e1': "sse_danielson_lanczos ops next_apply (2 ^ k) SIGN 0 s' = Some s1'"
      and a1: "agree (UNIV - {0 ..< 0 + 2 ^ k}) s1 s1'" by blast
    note l1 = length_sse [OF e1]
    with ll have ll1: "length (fst s1) = length (snd s1)" by simp
    from agree_sse [OF a1 ll1, of ops next_apply k SIGN "2 ^ k"]
    consider (none2) "sse_danielson_lanczos ops next_apply (2 ^ k) SIGN (2 ^ k) s1 = None \<and>
        sse_danielson_lanczos ops next_apply (2 ^ k) SIGN (2 ^ k) s1' = None"
      | (some2) "\<exists>s2 s2'. sse_danielson_lanczos ops next_apply (2 ^ k) SIGN (2 ^ k) s1 = Some s2 \<and>
        sse_danielson_lanczos ops next_apply (2 ^ k) SIGN (2 ^ k) s1' = Some s2' \<and>
        agree (UNIV - {0 ..< 0 + 2 ^ k} - {2 ^ k ..< 2 ^ k + 2 ^ k}) s2 s2'" by blast
    then show ?thesis
    proof cases
      case none2
      then show ?thesis using e1 e1' by (simp add: both_halves_def)
    next
      case some2
      have "\<exists>s2 s2'. sse_danielson_lanczos ops next_apply (2 ^ k) SIGN (2 ^ k) s1 = Some s2 \<and>
        sse_danielson_lanczos ops next_apply (2 ^ k) SIGN (2 ^ k) s1' = Some s2' \<and>
        agree (UNIV - {0 ..< 0 + 2 ^ k} - {2 ^ k ..< 2 ^ k + 2 ^ k}) s2 s2'" by (rule some2)
      then obtain s2 s2' where
        e2: "sse_danielson_lanczos ops next_apply (2 ^ k) SIGN (2 ^ k) s1 = Some s2"
        and e2': "sse_danielson_lanczos ops next_apply (2 ^ k) SIGN (2 ^ k) s1' = Some s2'"
        and a2: "agree (UNIV - {0 ..< 0 + 2 ^ k} - {2 ^ k ..< 2 ^ k + 2 ^ k}) s2 s2'" by blast
      from length_sse [OF e2] l1 l have "length (snd s2) = 2 ^ k + 2 ^ k" by simp
      then have "\<forall>i < length (snd s2). i \<notin> UNIV - {0 ..< 0 + 2 ^ k} - {2 ^ k ..< 2 ^ k + 2 ^ k}"
        by auto
      with a2 have "s2 = s2'" by (rule agree_empty_eq)
      then show ?thesis using e1 e1' e2 e2' by (simp add: both_halves_def)
    qed
  qed
qed

lemma both_halves_returns:
  assumes l: "length (fst s) = 2 ^ Suc k" "length (snd s) = 2 ^ Suc k"
  shows "\<exists>s2. both_halves ops next_apply (2 ^ k) SIGN s = Some s2 \<and>
           length (fst s2) = 2 ^ Suc k \<and> length (snd s2) = 2 ^ Suc k"
proof -
  from l have "0 + 2 ^ k \<le> length (fst s)" "0 + 2 ^ k \<le> length (snd s)" by simp_all
  from sse_returns [OF this] obtain s1 where
    e1: "sse_danielson_lanczos ops next_apply (2 ^ k) SIGN 0 s = Some s1" by blast
  note l1 = length_sse [OF e1]
  with l have "2 ^ k + 2 ^ k \<le> length (fst s1)" "2 ^ k + 2 ^ k \<le> length (snd s1)" by simp_all
  from sse_returns [OF this] obtain s2 where
    e2: "sse_danielson_lanczos ops next_apply (2 ^ k) SIGN (2 ^ k) s1 = Some s2" by blast
  from length_sse [OF e2] l1 l e1 e2 show ?thesis by (simp add: both_halves_def)
qed

lemma fft_alt:
  "fft ops next_apply BITS data =
     map_option (\<lambda>s2. save BITS s2 (scramble BITS data))
       (both_halves ops next_apply (SSE_N BITS div 2) 1 (load ops BITS (scramble BITS data)))"
  by (simp add: fft_def both_halves_def Let_def split: option.splits)

lemma ifft_alt:
  "ifft ops next_apply BITS data =
     map_option (\<lambda>s2. save BITS
         (map (\<lambda>v. mm_div_ps ops v (mm_set_ps1 (f_num ops (2 ^ BITS)))) (fst s2),
          map (\<lambda>v. mm_div_ps ops v (mm_set_ps1 (f_num ops (2 ^ BITS)))) (snd s2))
         (scramble BITS data))
       (both_halves ops next_apply (SSE_N BITS div 2) (- 1) (load ops BITS (scramble BITS data)))"
  by (simp add: ifft_def both_halves_def Let_def split: option.splits)

lemma transform_cong:
  assumes "length x = 2 ^ BITS" and "length y = 2 ^ BITS" and "map fst x = map fst y"
  shows "both_halves ops next_apply (SSE_N BITS div 2) SIGN (load ops BITS (scramble BITS x))
       = both_halves ops next_apply (SSE_N BITS div 2) SIGN (load ops BITS (scramble BITS y))"
proof (cases "BITS < 3")
  case True
  then show ?thesis by (simp add: SSE_N_small both_halves_def sse_zero)
next
  case False
  then obtain k where k: "BITS = k + 3" by (metis add.commute le_Suc_ex not_less)
  have "map fst (scramble BITS x) = map fst (scramble BITS y)"
    using assms by (simp add: scramble_map [symmetric])
  then have "agree UNIV (load ops BITS (scramble BITS x)) (load ops BITS (scramble BITS y))"
    using assms(1,2) by (intro agree_load) (simp_all add: length_scramble)
  moreover have "length (fst (load ops BITS (scramble BITS x))) = 2 ^ Suc k"
    "length (snd (load ops BITS (scramble BITS x))) = 2 ^ Suc k"
    unfolding length_load k by (rule SSE_N_pow)+
  ultimately show ?thesis unfolding k SSE_N_pow(2) by (rule both_halves_cong)
qed

lemma fft_ignores_imaginary:
  assumes "length x = 2 ^ BITS" and "length y = 2 ^ BITS" and "map fst x = map fst y"
  shows "fft ops next_apply BITS x = fft ops next_apply BITS y"
    and "ifft ops next_apply BITS x = ifft ops next_apply BITS y"
proof -
  have s: "\<And>s. save BITS s (scramble BITS x) = save BITS s (scramble BITS y)"
    using assms(1,2) by (intro save_cong) (simp_all add: length_scramble)
  show "fft ops next_apply BITS x = fft ops next_apply BITS y"
    by (simp only: fft_alt transform_cong [OF assms] s)
  show "ifft ops next_apply BITS x = ifft ops next_apply BITS y"
    by (simp only: ifft_alt transform_cong [OF assms] s)
qed

lemma length_save: "length d = 2 ^ BITS \<Longrightarrow> length (save BITS s d) = 2 ^ BITS"
proof -
  assume l: "length d = 2 ^ BITS"
  then have "agree_on UNIV d d" by (simp add: agree_on_def)
  from agree_save_vectors [OF this l, where s = s and vs = "[0..<SSE_N BITS]"]
  show ?thesis by (simp add: save_def)
qed

lemma fft_returns:
  assumes "3 \<le> BITS" and "length x = 2 ^ BITS"
  shows "\<exists>X. fft ops next_apply BITS x = Some X \<and> length X = 2 ^ BITS"
    and "\<exists>X. ifft ops next_apply BITS x = Some X \<and> length X = 2 ^ BITS"
proof -
  from assms(1) obtain k where k: "BITS = k + 3" by (metis add.commute le_Suc_ex)
  have l: "length (fst (load ops BITS (scramble BITS x))) = 2 ^ Suc k"
    "length (snd (load ops BITS (scramble BITS x))) = 2 ^ Suc k"
    unfolding length_load k by (rule SSE_N_pow)+
  have ls: "length (scramble BITS x) = 2 ^ BITS" using assms(2) by (simp add: length_scramble)
  from both_halves_returns [OF l, of ops next_apply 1] obtain s2 where
    "both_halves ops next_apply (2 ^ k) 1 (load ops BITS (scramble BITS x)) = Some s2" by blast
  then show "\<exists>X. fft ops next_apply BITS x = Some X \<and> length X = 2 ^ BITS"
    using length_save [OF ls] by (simp add: fft_alt k SSE_N_pow(2))
  from both_halves_returns [OF l, of ops next_apply "- 1"] obtain s3 where
    "both_halves ops next_apply (2 ^ k) (- 1) (load ops BITS (scramble BITS x)) = Some s3" by blast
  then show "\<exists>X. ifft ops next_apply BITS x = Some X \<and> length X = 2 ^ BITS"
    using length_save [OF ls] by (simp add: ifft_alt k SSE_N_pow(2))
qed

text \<open>
  C1 (the code departs from the claim). The claim is that the inverse transform of the forward
  transform returns the input up to rounding. For \<open>N = 8\<close>, the input whose first element
  is the imaginary unit and the all-zero input have the same forward transform, and the
  round trip returns a result for it; so the round trip returns the same vector for both
  inputs, which differ by 1 in one component, and cannot be within \<open>2\<^sup>-\<^sup>2\<^sup>0 \<cdot> 8\<close> of both.
\<close>

theorem fft_roundtrip_loses_imaginary:
  "fft ops next_apply 3 [(0, 1), (0, 0), (0, 0), (0, 0), (0, 0), (0, 0), (0, 0), (0, 0 :: real)]
     = fft ops next_apply 3 (replicate 8 (0, 0)) \<and>
   (\<exists>X. fft ops next_apply 3 (replicate 8 (0, 0 :: real)) = Some X \<and>
        (\<exists>Y. ifft ops next_apply 3 X = Some Y \<and> length Y = 8))"
proof -
  let ?x1 = "[(0, 1), (0, 0), (0, 0), (0, 0), (0, 0), (0, 0), (0, 0), (0, 0 :: real)]"
  let ?x0 = "replicate 8 (0, 0 :: real)"
  have "fft ops next_apply 3 ?x1 = fft ops next_apply 3 ?x0"
    by (rule fft_ignores_imaginary) (simp_all add: numeral_eq_Suc)
  moreover from fft_returns(1) [of 3 ?x0 ops next_apply] obtain X where
    X: "fft ops next_apply 3 ?x0 = Some X" "length X = 2 ^ 3" by auto
  moreover from fft_returns(2) [of 3 X ops next_apply] X(2) obtain Y where
    "ifft ops next_apply 3 X = Some Y" "length Y = 8" by auto
  ultimately show ?thesis by blast
qed

text \<open>
  C2 (the code departs from the claim). The claim is that the lane-internal level hands the
  four complex values (real and imaginary lanes) to the scalar 4-point butterfly and back.
  On the real lanes \<open>1, 2, 3, 4\<close> and imaginary lanes \<open>5, 6, 7, 8\<close> the butterfly is handed
  \<open>(1, 1), (2, 2), (3, 3), (4, 4)\<close>; with the identity in place of the butterfly the
  imaginary lanes come back as \<open>1, 2, 3, 4\<close>.
\<close>

theorem sse_base_case_reads_real_twice:
  "sse_danielson_lanczos_1 next_apply SIGN 0 ([[1, 2, 3, 4]], [[5, 6, 7, 8 :: real]])
     = (let d = next_apply SIGN [(1, 1), (2, 2), (3, 3), (4, 4)]
        in ([[fst (d ! 0), fst (d ! 1), fst (d ! 2), fst (d ! 3)]],
            [[snd (d ! 0), snd (d ! 1), snd (d ! 2), snd (d ! 3)]])) \<and>
   sse_danielson_lanczos_1 (\<lambda>SIGN data. data) SIGN 0 ([[1, 2, 3, 4]], [[5, 6, 7, 8 :: real]])
     = ([[1, 2, 3, 4]], [[1, 2, 3, 4]])"
  by (simp add: sse_danielson_lanczos_1_def SSE_DIV_def Let_def upt_rec numeral_eq_Suc)

section \<open>MDCT: the round trip and time-domain aliasing cancellation\<close>




lemma length_dft: "length (dft xs) = length xs"
  by (simp add: dft_def)







lemma derotate:
  "Complex (re * Re a + im * Im a) (- re * Im a + im * Re a) = Complex re im * cnj a"
  by (simp add: complex_eq_iff)

lemma derotate_scaled:
  "Complex (c * (Re f * Re a + Im f * Im a)) (c * (- Re f * Im a + Im f * Re a))
     = of_real c * (f * cnj a)"
  by (simp add: complex_eq_iff)
















lemma length_mdct_inverse: "length (mdct BITS True X) = 2 ^ BITS"
  by (simp add: mdct_def inverse_shift_def Let_def)












section \<open>Object: ranges of a key and the loops over them\<close>

lemma lower_le_upper: "lower_bound k xs \<le> upper_bound k xs"
  unfolding lower_bound_def upper_bound_def
  by (induction xs) auto

lemma range_of_sorted:
  "sorted (map fst xs) \<Longrightarrow> range_of k xs = filter (\<lambda>e. fst e = k) xs"
proof (induction xs)
  case Nil
  show ?case by (simp add: range_of_def)
next
  case (Cons x xs)
  then have IH: "range_of k xs = filter (\<lambda>e. fst e = k) xs" by simp
  from Cons.prems have ge: "\<forall>y \<in> set xs. fst x \<le> fst y" by simp
  consider "fst x < k" | "fst x = k" | "k < fst x" by (rule linorder_cases)
  then show ?case
  proof cases
    case 1
    then have "fst x \<le> k" "fst x \<noteq> k" by auto
    then show ?thesis using 1 IH by (simp add: range_of_def lower_bound_def upper_bound_def)
  next
    case 2
    with ge have "takeWhile (\<lambda>e. fst e < k) xs = []"
      by (cases xs) auto
    then show ?thesis using 2 IH by (simp add: range_of_def lower_bound_def upper_bound_def)
  next
    case 3
    with ge have "filter (\<lambda>e. fst e = k) xs = []" by (auto simp: filter_empty_conv)
    moreover from 3 have "\<not> fst x \<le> k" "\<not> fst x < k" "fst x \<noteq> k" by auto
    ultimately show ?thesis by (simp add: range_of_def lower_bound_def upper_bound_def)
  qed
qed

lemma outside_range_sorted:
  "sorted (map fst xs) \<Longrightarrow>
   take (lower_bound k xs) xs @ drop (upper_bound k xs) xs = filter (\<lambda>e. fst e \<noteq> k) xs"
proof (induction xs)
  case Nil
  show ?case by simp
next
  case (Cons x xs)
  then have IH: "take (lower_bound k xs) xs @ drop (upper_bound k xs) xs
      = filter (\<lambda>e. fst e \<noteq> k) xs" by simp
  from Cons.prems have ge: "\<forall>y \<in> set xs. fst x \<le> fst y" by simp
  consider "fst x < k" | "fst x = k" | "k < fst x" by (rule linorder_cases)
  then show ?case
  proof cases
    case 1
    then have "fst x \<le> k" "fst x \<noteq> k" by auto
    then show ?thesis using 1 IH by (simp add: lower_bound_def upper_bound_def)
  next
    case 2
    with ge have "takeWhile (\<lambda>e. fst e < k) xs = []"
      by (cases xs) auto
    then show ?thesis using 2 IH by (simp add: lower_bound_def upper_bound_def)
  next
    case 3
    with ge have "filter (\<lambda>e. fst e \<noteq> k) xs = xs" by (auto simp: filter_id_conv)
    moreover from 3 have "\<not> fst x \<le> k" "\<not> fst x < k" "fst x \<noteq> k" by auto
    ultimately show ?thesis by (simp add: lower_bound_def upper_bound_def)
  qed
qed

lemma split_range: 
  "take (lower_bound k xs) xs @ range_of k xs @ drop (upper_bound k xs) xs = xs"
proof -
  let ?b = "lower_bound k xs" and ?e = "upper_bound k xs"
  have "take (?e - ?b) (drop ?b xs) @ drop ?e xs = drop ?b xs"
    using lower_le_upper [of k xs]
    by (metis add_diff_inverse_nat append_take_drop_id drop_drop leD add.commute)
  then show ?thesis by (simp add: range_of_def)
qed

lemma sorted_insert_mm:
  "sorted (map fst xs) \<Longrightarrow> sorted (map fst (insert_mm e xs))"
proof (induction xs)
  case Nil
  show ?case by (simp add: insert_mm_def upper_bound_def)
next
  case (Cons x xs)
  then have IH: "sorted (map fst (insert_mm e xs))" by simp
  from Cons.prems have ge: "\<forall>y \<in> set xs. fst x \<le> fst y" by simp
  show ?case
  proof (cases "fst x \<le> fst e")
    case True
    then have "insert_mm e (x # xs) = x # insert_mm e xs"
      by (simp add: insert_mm_def upper_bound_def)
    moreover have "set (insert_mm e xs) = insert e (set xs)"
      by (metis append_take_drop_id insert_mm_def list.simps(15) set_append Un_insert_right append.simps(1,2) sup_bot.right_neutral Un_commute Un_insert_left)
    ultimately show ?thesis using IH ge True by simp
  next
    case False
    then have "insert_mm e (x # xs) = e # x # xs"
      by (simp add: insert_mm_def upper_bound_def)
    then show ?thesis using Cons.prems ge False by auto
  qed
qed

lemma example_object_inv: "object_inv example_object"
  by (simp add: object_inv_def example_object_def owned_def)

lemma set_loop_for_result:
  assumes "distinct (map snd r)" and "snd ` set r \<subseteq> dom h"
  shows "\<exists>h'. set_loop_for first flag r h = Some h' \<and>
     (\<forall>p. h' p = (if p \<in> snd ` set r
                   then map_option (\<lambda>s. s\<lparr>loop := (first \<and> flag \<and> p = snd (hd r))\<rparr>) (h p)
                   else h p))"
  using assms
proof (induction r arbitrary: first h)
  case Nil
  show ?case by simp
next
  case (Cons x r)
  obtain k p where x: "x = (k, p)" by (cases x)
  from Cons.prems x obtain s where s: "h p = Some s" by auto
  let ?h1 = "h(p \<mapsto> s\<lparr>loop := (if first then flag else False)\<rparr>)"
  from Cons.prems x have d: "distinct (map snd r)" and np: "p \<notin> snd ` set r"
    and live: "snd ` set r \<subseteq> dom ?h1" by auto
  from Cons.IH [OF d live, of False] obtain h' where
    h': "set_loop_for False flag r ?h1 = Some h'"
    and at0: "\<forall>q. h' q = (if q \<in> snd ` set r
         then map_option (\<lambda>s. s\<lparr>loop := (False \<and> flag \<and> q = snd (hd r))\<rparr>) (?h1 q)
         else ?h1 q)"
    by blast
  from at0 have at: "\<And>q. h' q = (if q \<in> snd ` set r
         then map_option (\<lambda>s. s\<lparr>loop := False\<rparr>) (?h1 q) else ?h1 q)"
    by simp
  have "set_loop_for first flag (x # r) h = Some h'" using x s h' by simp
  moreover have "\<And>q. h' q = (if q \<in> snd ` set (x # r)
       then map_option (\<lambda>s. s\<lparr>loop := (first \<and> flag \<and> q = snd (hd (x # r)))\<rparr>) (h q)
       else h q)"
  proof -
    fix q
    show "h' q = (if q \<in> snd ` set (x # r)
       then map_option (\<lambda>s. s\<lparr>loop := (first \<and> flag \<and> q = snd (hd (x # r)))\<rparr>) (h q)
       else h q)"
    proof (cases "q = p")
      case True
      then show ?thesis using at [of q] np x s by simp
    next
      case False
      then show ?thesis using at [of q] x by simp
    qed
  qed
  ultimately show ?case by blast
qed

lemma cancel_for_zero:
  assumes "distinct (map snd r)" and "snd ` set r \<subseteq> dom h"
  shows "cancel_for fade_out 0 r h = Some ([], h |` (- snd ` set r))"
  using assms
proof (induction r arbitrary: h)
  case Nil
  show ?case by simp
next
  case (Cons x r)
  obtain k p where x: "x = (k, p)" by (cases x)
  from Cons.prems x obtain s where s: "h p = Some s" by auto
  from Cons.prems x have d: "distinct (map snd r)" and np: "p \<notin> snd ` set r"
    and live: "snd ` set r \<subseteq> dom (h(p := None))" by auto
  have eq: "(h(p := None)) |` (- snd ` set r) = h |` (- snd ` set (x # r))"
    using x by (auto simp: restrict_map_def fun_eq_iff)
  have "cancel_for fade_out 0 (x # r) h = cancel_for fade_out 0 r (h(p := None))"
    using x s by simp
  also have "\<dots> = Some ([], (h(p := None)) |` (- snd ` set r))"
    using d live by (rule Cons.IH)
  finally show ?case by (simp only: eq)
qed

lemma faded_step:
  assumes "h p = Some s" and "p \<notin> A"
  shows "faded fade_out t A (if loop s then h(p \<mapsto> fade_out t s) else h)
       = faded fade_out t (insert p A) h"
  using assms by (auto simp: faded_def fun_eq_iff)

lemma cancel_for_fade:
  assumes "distinct (map snd r)" and "snd ` set r \<subseteq> dom h" and "fadeout \<noteq> 0"
  shows "cancel_for fade_out fadeout r h = Some (r, faded fade_out fadeout (snd ` set r) h)"
  using assms
proof (induction r arbitrary: h)
  case Nil
  show ?case by (simp add: faded_def)
next
  case (Cons x r)
  obtain k p where x: "x = (k, p)" by (cases x)
  from Cons.prems x obtain s where s: "h p = Some s" by auto
  let ?h1 = "if loop s then h(p \<mapsto> fade_out fadeout s) else h"
  from Cons.prems x have d: "distinct (map snd r)" and np: "p \<notin> snd ` set r"
    and live: "snd ` set r \<subseteq> dom ?h1" by auto
  have "cancel_for fade_out fadeout r ?h1 = Some (r, faded fade_out fadeout (snd ` set r) ?h1)"
    using d live Cons.prems(3) by (rule Cons.IH)
  then show ?case using x s Cons.prems(3) faded_step [where h = h and p = p, OF s np, of fade_out fadeout]
    by simp
qed

lemma cancel_all_for_force:
  assumes "distinct (map snd r)" and "snd ` set r \<subseteq> dom h"
  shows "cancel_all_for fade_out True fadeout r h = Some (h |` (- snd ` set r))"
  using assms
proof (induction r arbitrary: h)
  case Nil
  show ?case by simp
next
  case (Cons x r)
  obtain k p where x: "x = (k, p)" by (cases x)
  from Cons.prems x obtain s where s: "h p = Some s" by auto
  from Cons.prems x have d: "distinct (map snd r)" and np: "p \<notin> snd ` set r"
    and live: "snd ` set r \<subseteq> dom (h(p := None))" by auto
  have eq: "(h(p := None)) |` (- snd ` set r) = h |` (- snd ` set (x # r))"
    using x by (auto simp: restrict_map_def fun_eq_iff)
  have "cancel_all_for fade_out True fadeout (x # r) h = cancel_all_for fade_out True fadeout r (h(p := None))"
    using x s by simp
  also have "\<dots> = Some ((h(p := None)) |` (- snd ` set r))"
    using d live by (rule Cons.IH)
  finally show ?case by (simp only: eq)
qed

lemma cancel_all_for_fade:
  assumes "distinct (map snd r)" and "snd ` set r \<subseteq> dom h"
  shows "cancel_all_for fade_out False fadeout r h = Some (faded fade_out fadeout (snd ` set r) h)"
  using assms
proof (induction r arbitrary: h)
  case Nil
  show ?case by (simp add: faded_def)
next
  case (Cons x r)
  obtain k p where x: "x = (k, p)" by (cases x)
  from Cons.prems x obtain s where s: "h p = Some s" by auto
  let ?h1 = "if loop s then h(p \<mapsto> fade_out fadeout s) else h"
  from Cons.prems x have d: "distinct (map snd r)" and np: "p \<notin> snd ` set r"
    and live: "snd ` set r \<subseteq> dom ?h1" by auto
  have "cancel_all_for fade_out False fadeout r ?h1 = Some (faded fade_out fadeout (snd ` set r) ?h1)"
    using d live by (rule Cons.IH)
  then show ?case using x s faded_step [where h = h and p = p, OF s np, of fade_out fadeout]
    by simp
qed

lemma get_loop_for_result:
  assumes "snd ` set r \<subseteq> dom h"
  shows "get_loop_for r h = Some (\<exists>p \<in> snd ` set r. \<exists>s. h p = Some s \<and> loop s)"
  using assms
proof (induction r)
  case Nil
  show ?case by simp
next
  case (Cons x r)
  obtain k p where x: "x = (k, p)" by (cases x)
  from Cons.prems x obtain s where s: "h p = Some s" by auto
  from Cons have IH: "get_loop_for r h = Some (\<exists>p \<in> snd ` set r. \<exists>s. h p = Some s \<and> loop s)"
    by simp
  show ?case using x s IH by auto
qed

lemma under_range: "sorted (map fst xs) \<Longrightarrow> map snd (range_of k xs) = under_key k xs"
  by (simp add: range_of_sorted under_key_def)

lemma under_subset: "set (under_key k xs) \<subseteq> snd ` set xs"
  by (auto simp: under_key_def)

lemma under_distinct: "distinct (map snd xs) \<Longrightarrow> distinct (under_key k xs)"
  unfolding under_key_def by (rule distinct_map_filter)

lemma under_other_key:
  assumes "distinct (map snd xs)" and "(k', p) \<in> set xs" and "k' \<noteq> k"
  shows "p \<notin> set (under_key k xs)"
proof
  assume "p \<in> set (under_key k xs)"
  then have "(k, p) \<in> set xs" by (auto simp: under_key_def)
  moreover from assms(1) have "inj_on snd (set xs)" by (simp add: distinct_map)
  ultimately have "(k, p) = (k', p)" using assms(2) inj_onD [of snd "set xs" "(k, p)" "(k', p)"]
    by simp
  with assms(3) show False by simp
qed

lemma inv_named:
  assumes "object_inv st"
  shows "sorted (map fst (named_sources st))" and "distinct (map snd (named_sources st))"
    and "snd ` set (named_sources st) \<subseteq> dom (sources st)"
    and "snd ` set (named_sources st) \<inter> snd ` set (indexed_sources st) = {}"
  using assms by (auto simp: object_inv_def owned_def)

lemma inv_indexed:
  assumes "object_inv st"
  shows "sorted (map fst (indexed_sources st))" and "distinct (map snd (indexed_sources st))"
    and "snd ` set (indexed_sources st) \<subseteq> dom (sources st)"
  using assms by (auto simp: object_inv_def owned_def)

lemma set_loop_sources_result:
  fixes xs :: "('k::linorder \<times> ptr) list"
  assumes srt: "sorted (map fst xs)" and dst: "distinct (map snd xs)"
    and live: "snd ` set xs \<subseteq> dom h"
  shows "\<exists>h'. set_loop_for True flag (range_of k xs) h = Some h' \<and>
     (\<forall>p0 ps. under_key k xs = p0 # ps \<longrightarrow>
        (\<exists>s. h p0 = Some s \<and> h' p0 = Some (s\<lparr>loop := flag\<rparr>)) \<and>
        (\<forall>p \<in> set ps. \<exists>s. h p = Some s \<and> h' p = Some (s\<lparr>loop := False\<rparr>))) \<and>
     (\<forall>p. p \<notin> set (under_key k xs) \<longrightarrow> h' p = h p)"
proof -
  let ?r = "range_of k xs"
  have u: "map snd ?r = under_key k xs" using srt by (rule under_range)
  then have su: "snd ` set ?r = set (under_key k xs)" by (metis set_map)
  have d: "distinct (map snd ?r)" using u under_distinct [OF dst] by simp
  have l: "snd ` set ?r \<subseteq> dom h" using su under_subset [of k xs] live by auto
  from set_loop_for_result [OF d l, of True flag] obtain h' where
    h': "set_loop_for True flag ?r h = Some h'"
    and at: "\<And>p. h' p = (if p \<in> set (under_key k xs)
        then map_option (\<lambda>s. s\<lparr>loop := (flag \<and> p = snd (hd ?r))\<rparr>) (h p) else h p)"
    unfolding su by auto
  have first: "\<And>p0 ps. under_key k xs = p0 # ps \<Longrightarrow>
        (\<exists>s. h p0 = Some s \<and> h' p0 = Some (s\<lparr>loop := flag\<rparr>)) \<and>
        (\<forall>p \<in> set ps. \<exists>s. h p = Some s \<and> h' p = Some (s\<lparr>loop := False\<rparr>))"
  proof -
    fix p0 ps assume eq: "under_key k xs = p0 # ps"
    with u have hd: "snd (hd ?r) = p0" by (cases ?r) auto
    from eq under_distinct [OF dst, of k] have np: "p0 \<notin> set ps" by simp
    have dom: "\<And>p. p \<in> set (p0 # ps) \<Longrightarrow> \<exists>s. h p = Some s"
      using l su eq by auto
    show "(\<exists>s. h p0 = Some s \<and> h' p0 = Some (s\<lparr>loop := flag\<rparr>)) \<and>
        (\<forall>p \<in> set ps. \<exists>s. h p = Some s \<and> h' p = Some (s\<lparr>loop := False\<rparr>))"
    proof (intro conjI ballI)
      from dom [of p0] obtain s where "h p0 = Some s" by auto
      then show "\<exists>s. h p0 = Some s \<and> h' p0 = Some (s\<lparr>loop := flag\<rparr>)"
        using at [of p0] eq hd by simp
    next
      fix p assume p: "p \<in> set ps"
      with np have "p \<noteq> p0" by auto
      moreover from dom [of p] p obtain s where "h p = Some s" by auto
      ultimately show "\<exists>s. h p = Some s \<and> h' p = Some (s\<lparr>loop := False\<rparr>)"
        using at [of p] eq hd p by simp
    qed
  qed
  have "\<And>p. p \<notin> set (under_key k xs) \<Longrightarrow> h' p = h p" using at by simp
  with h' first show ?thesis by blast
qed

lemma example_under:
  "under_key ''fire'' (named_sources example_object) = [10, 11]"
  "under_key ''none'' (named_sources example_object) = []"
  "under_key 7 (indexed_sources example_object) = [13, 14]"
  "owned example_object = {10, 11, 12, 13, 14}"
  by (auto simp: under_key_def example_object_def owned_def)

lemma example_sources:
  "sources example_object 10 = Some \<lparr>loop = False, fading = None\<rparr>"
  "sources example_object 11 = Some \<lparr>loop = True, fading = None\<rparr>"
  "sources example_object 12 = Some \<lparr>loop = True, fading = None\<rparr>"
  "sources example_object 13 = Some \<lparr>loop = True, fading = None\<rparr>"
  "sources example_object 14 = Some \<lparr>loop = False, fading = None\<rparr>"
  by (simp_all add: example_object_def)

text \<open>
  C4. For every key and flag, \<^verbatim>\<open>set_loop(key, flag)\<close> returns, leaves both maps as they are,
  sets the loop flag of the first source under the key to the flag and that of every other
  source under the key to false, and leaves every other source (under another key, in the
  other map, or elsewhere) untouched. Both overloads.
\<close>

theorem set_loop_first_only:
  assumes "object_inv st"
  shows "(\<exists>st'. set_loop_name name flag st = Some st' \<and>
            named_sources st' = named_sources st \<and> indexed_sources st' = indexed_sources st \<and>
            dead st' = dead st \<and> ctx st' = ctx st \<and>
            (\<forall>p0 ps. under_key name (named_sources st) = p0 # ps \<longrightarrow>
               (\<exists>s. sources st p0 = Some s \<and> sources st' p0 = Some (s\<lparr>loop := flag\<rparr>)) \<and>
               (\<forall>p \<in> set ps. \<exists>s. sources st p = Some s \<and> sources st' p = Some (s\<lparr>loop := False\<rparr>))) \<and>
            (\<forall>k p. (k, p) \<in> set (named_sources st) \<and> k \<noteq> name \<longrightarrow> sources st' p = sources st p) \<and>
            (\<forall>p. p \<notin> set (under_key name (named_sources st)) \<longrightarrow> sources st' p = sources st p)) \<and>
         (\<exists>st'. set_loop_index index flag st = Some st' \<and>
            named_sources st' = named_sources st \<and> indexed_sources st' = indexed_sources st \<and>
            dead st' = dead st \<and> ctx st' = ctx st \<and>
            (\<forall>p0 ps. under_key index (indexed_sources st) = p0 # ps \<longrightarrow>
               (\<exists>s. sources st p0 = Some s \<and> sources st' p0 = Some (s\<lparr>loop := flag\<rparr>)) \<and>
               (\<forall>p \<in> set ps. \<exists>s. sources st p = Some s \<and> sources st' p = Some (s\<lparr>loop := False\<rparr>))) \<and>
            (\<forall>k p. (k, p) \<in> set (indexed_sources st) \<and> k \<noteq> index \<longrightarrow> sources st' p = sources st p) \<and>
            (\<forall>p. p \<notin> set (under_key index (indexed_sources st)) \<longrightarrow> sources st' p = sources st p))"
proof (rule conjI)
  note n = inv_named [OF assms]
  from set_loop_sources_result [OF n(1) n(2) n(3), of flag name] obtain h' where
    h': "set_loop_for True flag (range_of name (named_sources st)) (sources st) = Some h'"
    and first: "\<forall>p0 ps. under_key name (named_sources st) = p0 # ps \<longrightarrow>
        (\<exists>s. sources st p0 = Some s \<and> h' p0 = Some (s\<lparr>loop := flag\<rparr>)) \<and>
        (\<forall>p \<in> set ps. \<exists>s. sources st p = Some s \<and> h' p = Some (s\<lparr>loop := False\<rparr>))"
    and frame: "\<forall>p. p \<notin> set (under_key name (named_sources st)) \<longrightarrow> h' p = sources st p"
    by blast
  have other: "\<forall>k p. (k, p) \<in> set (named_sources st) \<and> k \<noteq> name \<longrightarrow> h' p = sources st p"
    using frame under_other_key [OF n(2)] by blast
  show "\<exists>st'. set_loop_name name flag st = Some st' \<and>
            named_sources st' = named_sources st \<and> indexed_sources st' = indexed_sources st \<and>
            dead st' = dead st \<and> ctx st' = ctx st \<and>
            (\<forall>p0 ps. under_key name (named_sources st) = p0 # ps \<longrightarrow>
               (\<exists>s. sources st p0 = Some s \<and> sources st' p0 = Some (s\<lparr>loop := flag\<rparr>)) \<and>
               (\<forall>p \<in> set ps. \<exists>s. sources st p = Some s \<and> sources st' p = Some (s\<lparr>loop := False\<rparr>))) \<and>
            (\<forall>k p. (k, p) \<in> set (named_sources st) \<and> k \<noteq> name \<longrightarrow> sources st' p = sources st p) \<and>
            (\<forall>p. p \<notin> set (under_key name (named_sources st)) \<longrightarrow> sources st' p = sources st p)"
    using h' first other frame by (simp add: set_loop_name_def)
next
  note n = inv_indexed [OF assms]
  from set_loop_sources_result [OF n(1) n(2) n(3), of flag index] obtain h' where
    h': "set_loop_for True flag (range_of index (indexed_sources st)) (sources st) = Some h'"
    and first: "\<forall>p0 ps. under_key index (indexed_sources st) = p0 # ps \<longrightarrow>
        (\<exists>s. sources st p0 = Some s \<and> h' p0 = Some (s\<lparr>loop := flag\<rparr>)) \<and>
        (\<forall>p \<in> set ps. \<exists>s. sources st p = Some s \<and> h' p = Some (s\<lparr>loop := False\<rparr>))"
    and frame: "\<forall>p. p \<notin> set (under_key index (indexed_sources st)) \<longrightarrow> h' p = sources st p"
    by blast
  have other: "\<forall>k p. (k, p) \<in> set (indexed_sources st) \<and> k \<noteq> index \<longrightarrow> h' p = sources st p"
    using frame under_other_key [OF n(2)] by blast
  show "\<exists>st'. set_loop_index index flag st = Some st' \<and>
            named_sources st' = named_sources st \<and> indexed_sources st' = indexed_sources st \<and>
            dead st' = dead st \<and> ctx st' = ctx st \<and>
            (\<forall>p0 ps. under_key index (indexed_sources st) = p0 # ps \<longrightarrow>
               (\<exists>s. sources st p0 = Some s \<and> sources st' p0 = Some (s\<lparr>loop := flag\<rparr>)) \<and>
               (\<forall>p \<in> set ps. \<exists>s. sources st p = Some s \<and> sources st' p = Some (s\<lparr>loop := False\<rparr>))) \<and>
            (\<forall>k p. (k, p) \<in> set (indexed_sources st) \<and> k \<noteq> index \<longrightarrow> sources st' p = sources st p) \<and>
            (\<forall>p. p \<notin> set (under_key index (indexed_sources st)) \<longrightarrow> sources st' p = sources st p)"
    using h' first other frame by (simp add: set_loop_index_def)
qed

theorem set_loop_first_only_witness:
  "object_inv example_object \<and>
   (\<exists>st'. set_loop_name ''fire'' True example_object = Some st' \<and>
      sources st' 10 = Some \<lparr>loop = True, fading = None\<rparr> \<and>
      sources st' 11 = Some \<lparr>loop = False, fading = None\<rparr> \<and>
      sources st' 12 = sources example_object 12 \<and>
      sources st' 13 = sources example_object 13)"
proof -
  from set_loop_first_only [OF example_object_inv, of "''fire''" True 7]
  obtain st' where a: "set_loop_name ''fire'' True example_object = Some st'"
    and b: "\<forall>p0 ps. under_key ''fire'' (named_sources example_object) = p0 # ps \<longrightarrow>
               (\<exists>s. sources example_object p0 = Some s \<and> sources st' p0 = Some (s\<lparr>loop := True\<rparr>)) \<and>
               (\<forall>p \<in> set ps. \<exists>s. sources example_object p = Some s \<and>
                   sources st' p = Some (s\<lparr>loop := False\<rparr>))"
    and c: "\<forall>p. p \<notin> set (under_key ''fire'' (named_sources example_object)) \<longrightarrow>
               sources st' p = sources example_object p"
    by blast
  from b have "sources st' 10 = Some \<lparr>loop = True, fading = None\<rparr>"
    and "sources st' 11 = Some \<lparr>loop = False, fading = None\<rparr>"
    by (simp_all add: example_under example_sources)
  moreover from c have "sources st' 12 = sources example_object 12"
    and "sources st' 13 = sources example_object 13"
    by (simp_all add: example_under)
  ultimately show ?thesis using a example_object_inv by blast
qed

lemma range_facts:
  fixes xs :: "('k::linorder \<times> ptr) list"
  assumes srt: "sorted (map fst xs)" and dst: "distinct (map snd xs)"
    and live: "snd ` set xs \<subseteq> dom h"
  shows "snd ` set (range_of k xs) = set (under_key k xs)"
    and "distinct (map snd (range_of k xs))"
    and "snd ` set (range_of k xs) \<subseteq> dom h"
proof -
  have u: "map snd (range_of k xs) = under_key k xs" using srt by (rule under_range)
  then show su: "snd ` set (range_of k xs) = set (under_key k xs)" by (metis set_map)
  show "distinct (map snd (range_of k xs))" using u under_distinct [OF dst] by simp
  show "snd ` set (range_of k xs) \<subseteq> dom h" using su under_subset [of k xs] live by auto
qed

lemma cancel_sources_zero:
  fixes xs :: "('k::linorder \<times> ptr) list"
  assumes srt: "sorted (map fst xs)" and dst: "distinct (map snd xs)"
    and live: "snd ` set xs \<subseteq> dom h"
  shows "cancel_sources fade_out k 0 xs h
       = Some (filter (\<lambda>e. fst e \<noteq> k) xs, h |` (- set (under_key k xs)))"
proof -
  note r = range_facts [OF assms, of k]
  have "cancel_for fade_out 0 (range_of k xs) h = Some ([], h |` (- set (under_key k xs)))"
    using cancel_for_zero [OF r(2) r(3)] r(1) by simp
  then show ?thesis using outside_range_sorted [OF srt, of k]
    by (simp add: cancel_sources_def)
qed

lemma cancel_sources_fade:
  fixes xs :: "('k::linorder \<times> ptr) list"
  assumes srt: "sorted (map fst xs)" and dst: "distinct (map snd xs)"
    and live: "snd ` set xs \<subseteq> dom h" and nz: "fadeout \<noteq> 0"
  shows "cancel_sources fade_out k fadeout xs h
       = Some (xs, faded fade_out fadeout (set (under_key k xs)) h)"
proof -
  note r = range_facts [OF srt dst live, of k]
  have "cancel_for fade_out fadeout (range_of k xs) h
      = Some (range_of k xs, faded fade_out fadeout (set (under_key k xs)) h)"
    using cancel_for_fade [OF r(2) r(3) nz] r(1) by simp
  then show ?thesis using split_range [of k xs]
    by (simp add: cancel_sources_def)
qed

lemma faded_at:
  assumes "A \<subseteq> dom h"
  shows "(\<forall>p \<in> A. \<exists>s. h p = Some s \<and>
            faded fade_out t A h p = Some (if loop s then fade_out t s else s)) \<and>
         (\<forall>p. p \<notin> A \<longrightarrow> faded fade_out t A h p = h p)"
proof (intro conjI ballI allI impI)
  fix p assume "p \<in> A"
  with assms obtain s where "h p = Some s" by auto
  then show "\<exists>s. h p = Some s \<and>
      faded fade_out t A h p = Some (if loop s then fade_out t s else s)"
    using \<open>p \<in> A\<close> by (simp add: faded_def)
next
  fix p assume "p \<notin> A"
  then show "faded fade_out t A h p = h p" by (simp add: faded_def)
qed

text \<open>
  C5. \<^verbatim>\<open>cancel(key, 0)\<close> deletes every source under the key and removes exactly the entries
  of the key from the map; \<^verbatim>\<open>cancel(key, fadeout)\<close> with \<open>fadeout > 0\<close> removes nothing,
  calls \<^verbatim>\<open>fade_out(fadeout)\<close> on the sources under the key whose loop flag is set, and
  leaves the others under the key, and all other sources, as they are. Both overloads.
\<close>

theorem cancel_key:
  assumes "object_inv st"
  shows "(\<exists>st'. cancel_name fade_out name 0 st = Some st' \<and>
            named_sources st' = filter (\<lambda>e. fst e \<noteq> name) (named_sources st) \<and>
            indexed_sources st' = indexed_sources st \<and>
            (\<forall>p. sources st' p = (if p \<in> set (under_key name (named_sources st)) then None
                                  else sources st p))) \<and>
         (\<exists>st'. cancel_index fade_out index 0 st = Some st' \<and>
            indexed_sources st' = filter (\<lambda>e. fst e \<noteq> index) (indexed_sources st) \<and>
            named_sources st' = named_sources st \<and>
            (\<forall>p. sources st' p = (if p \<in> set (under_key index (indexed_sources st)) then None
                                  else sources st p))) \<and>
         (0 < fadeout \<longrightarrow>
           (\<exists>st'. cancel_name fade_out name fadeout st = Some st' \<and>
              named_sources st' = named_sources st \<and> indexed_sources st' = indexed_sources st \<and>
              (\<forall>p \<in> set (under_key name (named_sources st)). \<exists>s. sources st p = Some s \<and>
                  sources st' p = Some (if loop s then fade_out fadeout s else s)) \<and>
              (\<forall>p. p \<notin> set (under_key name (named_sources st)) \<longrightarrow> sources st' p = sources st p)) \<and>
           (\<exists>st'. cancel_index fade_out index fadeout st = Some st' \<and>
              named_sources st' = named_sources st \<and> indexed_sources st' = indexed_sources st \<and>
              (\<forall>p \<in> set (under_key index (indexed_sources st)). \<exists>s. sources st p = Some s \<and>
                  sources st' p = Some (if loop s then fade_out fadeout s else s)) \<and>
              (\<forall>p. p \<notin> set (under_key index (indexed_sources st)) \<longrightarrow> sources st' p = sources st p)))"
proof (intro conjI impI)
  note n = inv_named [OF assms]
  show "\<exists>st'. cancel_name fade_out name 0 st = Some st' \<and>
            named_sources st' = filter (\<lambda>e. fst e \<noteq> name) (named_sources st) \<and>
            indexed_sources st' = indexed_sources st \<and>
            (\<forall>p. sources st' p = (if p \<in> set (under_key name (named_sources st)) then None
                                  else sources st p))"
    using cancel_sources_zero [OF n(1) n(2) n(3), of fade_out name]
    by (simp add: cancel_name_def restrict_map_def)
next
  note n = inv_indexed [OF assms]
  show "\<exists>st'. cancel_index fade_out index 0 st = Some st' \<and>
            indexed_sources st' = filter (\<lambda>e. fst e \<noteq> index) (indexed_sources st) \<and>
            named_sources st' = named_sources st \<and>
            (\<forall>p. sources st' p = (if p \<in> set (under_key index (indexed_sources st)) then None
                                  else sources st p))"
    using cancel_sources_zero [OF n(1) n(2) n(3), of fade_out index]
    by (simp add: cancel_index_def restrict_map_def)
next
  assume "0 < fadeout"
  then have nz: "fadeout \<noteq> 0" by simp
  note n = inv_named [OF assms]
  have "set (under_key name (named_sources st)) \<subseteq> dom (sources st)"
    using under_subset [of name "named_sources st"] n(3) by auto
  from faded_at [OF this, of fade_out fadeout]
  show "\<exists>st'. cancel_name fade_out name fadeout st = Some st' \<and>
              named_sources st' = named_sources st \<and> indexed_sources st' = indexed_sources st \<and>
              (\<forall>p \<in> set (under_key name (named_sources st)). \<exists>s. sources st p = Some s \<and>
                  sources st' p = Some (if loop s then fade_out fadeout s else s)) \<and>
              (\<forall>p. p \<notin> set (under_key name (named_sources st)) \<longrightarrow> sources st' p = sources st p)"
    using cancel_sources_fade [OF n(1) n(2) n(3) nz, of fade_out name]
    by (simp add: cancel_name_def)
next
  assume "0 < fadeout"
  then have nz: "fadeout \<noteq> 0" by simp
  note n = inv_indexed [OF assms]
  have "set (under_key index (indexed_sources st)) \<subseteq> dom (sources st)"
    using under_subset [of index "indexed_sources st"] n(3) by auto
  from faded_at [OF this, of fade_out fadeout]
  show "\<exists>st'. cancel_index fade_out index fadeout st = Some st' \<and>
              named_sources st' = named_sources st \<and> indexed_sources st' = indexed_sources st \<and>
              (\<forall>p \<in> set (under_key index (indexed_sources st)). \<exists>s. sources st p = Some s \<and>
                  sources st' p = Some (if loop s then fade_out fadeout s else s)) \<and>
              (\<forall>p. p \<notin> set (under_key index (indexed_sources st)) \<longrightarrow> sources st' p = sources st p)"
    using cancel_sources_fade [OF n(1) n(2) n(3) nz, of fade_out index]
    by (simp add: cancel_index_def)
qed

theorem cancel_key_witness:
  "object_inv example_object \<and> (0::real) < 1 / 2 \<and>
   (\<exists>st'. cancel_name example_fade_out ''fire'' 0 example_object = Some st' \<and>
      named_sources st' = [(''walk'', 12)] \<and> sources st' 10 = None \<and> sources st' 11 = None \<and>
      sources st' 12 = sources example_object 12) \<and>
   (\<exists>st'. cancel_index example_fade_out 7 (1 / 2) example_object = Some st' \<and>
      indexed_sources st' = [(7, 13), (7, 14)] \<and>
      sources st' 13 = Some \<lparr>loop = True, fading = Some (1 / 2)\<rparr> \<and>
      sources st' 14 = Some \<lparr>loop = False, fading = None\<rparr>)"
proof -
  note t = cancel_key [OF example_object_inv, of example_fade_out "''fire''" 7 "1 / 2"]
  from t obtain st1 where a: "cancel_name example_fade_out ''fire'' 0 example_object = Some st1"
    and b: "named_sources st1 = filter (\<lambda>e. fst e \<noteq> ''fire'') (named_sources example_object)"
    and c: "\<forall>p. sources st1 p = (if p \<in> set (under_key ''fire'' (named_sources example_object))
        then None else sources example_object p)"
    by blast
  from b have b': "named_sources st1 = [(''walk'', 12)]" by (simp add: example_object_def)
  from c have c': "sources st1 10 = None" "sources st1 11 = None"
    "sources st1 12 = sources example_object 12"
    by (simp_all add: example_under)
  have pos: "(0::real) < 1 / 2" by simp
  with t obtain st2 where d: "cancel_index example_fade_out 7 (1 / 2) example_object = Some st2"
    and e: "indexed_sources st2 = indexed_sources example_object"
    and f: "\<forall>p \<in> set (under_key 7 (indexed_sources example_object)).
        \<exists>s. sources example_object p = Some s \<and>
            sources st2 p = Some (if loop s then example_fade_out (1 / 2) s else s)"
    by blast
  from e have e': "indexed_sources st2 = [(7, 13), (7, 14)]" by (simp add: example_object_def)
  from f have f': "sources st2 13 = Some \<lparr>loop = True, fading = Some (1 / 2)\<rparr>"
    "sources st2 14 = Some \<lparr>loop = False, fading = None\<rparr>"
    by (simp_all add: example_under example_sources example_fade_out_def)
  show ?thesis using example_object_inv pos a b' c' d e' f' by blast
qed

text \<open>
  C7. \<^verbatim>\<open>get_loop(key)\<close> returns true if and only if some source under the key has its
  loop flag set. Both overloads.
\<close>

theorem get_loop_any:
  assumes "object_inv st"
  shows "get_loop_name name st
           = Some (\<exists>p \<in> set (under_key name (named_sources st)). \<exists>s. sources st p = Some s \<and> loop s) \<and>
         get_loop_index index st
           = Some (\<exists>p \<in> set (under_key index (indexed_sources st)). \<exists>s. sources st p = Some s \<and> loop s)"
proof
  note n = inv_named [OF assms]
  note r = range_facts [OF n(1) n(2) n(3), of name]
  show "get_loop_name name st
      = Some (\<exists>p \<in> set (under_key name (named_sources st)). \<exists>s. sources st p = Some s \<and> loop s)"
    using get_loop_for_result [OF r(3)] r(1) by (simp add: get_loop_name_def)
next
  note n = inv_indexed [OF assms]
  note r = range_facts [OF n(1) n(2) n(3), of index]
  show "get_loop_index index st
      = Some (\<exists>p \<in> set (under_key index (indexed_sources st)). \<exists>s. sources st p = Some s \<and> loop s)"
    using get_loop_for_result [OF r(3)] r(1) by (simp add: get_loop_index_def)
qed

theorem get_loop_any_witness:
  "object_inv example_object \<and>
   get_loop_name ''fire'' example_object = Some True \<and>
   get_loop_index 7 example_object = Some True \<and>
   get_loop_name ''none'' example_object = Some False"
  using example_object_inv
    get_loop_any [OF example_object_inv, of "''fire''" 7]
    get_loop_any [OF example_object_inv, of "''none''" 7]
  by (simp add: example_under example_sources)

lemma cancel_all_force:
  assumes "object_inv st"
  shows "cancel_all fade_out True fadeout st
       = Some (st\<lparr>sources := sources st |` (- owned st), named_sources := [], indexed_sources := []\<rparr>)"
proof -
  note n = inv_named [OF assms] and i = inv_indexed [OF assms]
  let ?h1 = "sources st |` (- snd ` set (indexed_sources st))"
  have 1: "cancel_all_sources fade_out True fadeout (indexed_sources st) (sources st)
      = Some ([], ?h1)"
    using cancel_all_for_force [OF i(2) i(3)] by (simp add: cancel_all_sources_def)
  have live: "snd ` set (named_sources st) \<subseteq> dom ?h1" using n(3) n(4) by auto
  have 2: "cancel_all_sources fade_out True fadeout (named_sources st) ?h1
      = Some ([], ?h1 |` (- snd ` set (named_sources st)))"
    using cancel_all_for_force [OF n(2) live] by (simp add: cancel_all_sources_def)
  have "?h1 |` (- snd ` set (named_sources st)) = sources st |` (- owned st)"
    by (auto simp: owned_def restrict_map_def fun_eq_iff)
  then show ?thesis using 1 2 by (simp add: cancel_all_def)
qed

lemma cancel_all_fade:
  assumes "object_inv st"
  shows "cancel_all fade_out False fadeout st
       = Some (st\<lparr>sources := faded fade_out fadeout (owned st) (sources st)\<rparr>)"
proof -
  note n = inv_named [OF assms] and i = inv_indexed [OF assms]
  let ?h1 = "faded fade_out fadeout (snd ` set (indexed_sources st)) (sources st)"
  have 1: "cancel_all_sources fade_out False fadeout (indexed_sources st) (sources st)
      = Some (indexed_sources st, ?h1)"
    using cancel_all_for_fade [OF i(2) i(3)] by (simp add: cancel_all_sources_def)
  have "dom ?h1 = dom (sources st)" by (auto simp: faded_def split: if_splits)
  then have live: "snd ` set (named_sources st) \<subseteq> dom ?h1" using n(3) by simp
  have 2: "cancel_all_sources fade_out False fadeout (named_sources st) ?h1
      = Some (named_sources st, faded fade_out fadeout (snd ` set (named_sources st)) ?h1)"
    using cancel_all_for_fade [OF n(2) live] by (simp add: cancel_all_sources_def)
  have "faded fade_out fadeout (snd ` set (named_sources st)) ?h1
      = faded fade_out fadeout (owned st) (sources st)"
    using n(4) by (auto simp: owned_def faded_def fun_eq_iff)
  then show ?thesis using 1 2 by (simp add: cancel_all_def)
qed

lemma owned_live: "object_inv st \<Longrightarrow> owned st \<subseteq> dom (sources st)"
  by (simp add: object_inv_def)

text \<open>
  C6. \<^verbatim>\<open>cancel_all(true, fadeout)\<close> deletes every source of the object and leaves both maps
  empty; \<^verbatim>\<open>cancel_all(false, fadeout)\<close> removes nothing and calls \<^verbatim>\<open>fade_out(fadeout)\<close>
  on exactly the sources whose loop flag is set.
\<close>

theorem cancel_all_force_or_fade:
  assumes "object_inv st"
  shows "(\<exists>st'. cancel_all fade_out True fadeout st = Some st' \<and>
            named_sources st' = [] \<and> indexed_sources st' = [] \<and>
            dead st' = dead st \<and> ctx st' = ctx st \<and>
            (\<forall>p. sources st' p = (if p \<in> owned st then None else sources st p))) \<and>
         (\<exists>st'. cancel_all fade_out False fadeout st = Some st' \<and>
            named_sources st' = named_sources st \<and> indexed_sources st' = indexed_sources st \<and>
            dead st' = dead st \<and> ctx st' = ctx st \<and>
            (\<forall>p \<in> owned st. \<exists>s. sources st p = Some s \<and>
                sources st' p = Some (if loop s then fade_out fadeout s else s)) \<and>
            (\<forall>p. p \<notin> owned st \<longrightarrow> sources st' p = sources st p))"
proof
  show "\<exists>st'. cancel_all fade_out True fadeout st = Some st' \<and>
            named_sources st' = [] \<and> indexed_sources st' = [] \<and>
            dead st' = dead st \<and> ctx st' = ctx st \<and>
            (\<forall>p. sources st' p = (if p \<in> owned st then None else sources st p))"
    using cancel_all_force [OF assms, of fade_out fadeout] by (simp add: restrict_map_def)
next
  from faded_at [OF owned_live [OF assms], of fade_out fadeout]
  show "\<exists>st'. cancel_all fade_out False fadeout st = Some st' \<and>
            named_sources st' = named_sources st \<and> indexed_sources st' = indexed_sources st \<and>
            dead st' = dead st \<and> ctx st' = ctx st \<and>
            (\<forall>p \<in> owned st. \<exists>s. sources st p = Some s \<and>
                sources st' p = Some (if loop s then fade_out fadeout s else s)) \<and>
            (\<forall>p. p \<notin> owned st \<longrightarrow> sources st' p = sources st p)"
    using cancel_all_fade [OF assms, of fade_out fadeout] by simp
qed

theorem cancel_all_force_or_fade_witness:
  "object_inv example_object \<and>
   (\<exists>st'. cancel_all example_fade_out True (1 / 10) example_object = Some st' \<and>
      named_sources st' = [] \<and> indexed_sources st' = [] \<and>
      sources st' 10 = None \<and> sources st' 13 = None \<and> sources st' 18 = sources example_object 18) \<and>
   (\<exists>st'. cancel_all example_fade_out False (1 / 10) example_object = Some st' \<and>
      named_sources st' = named_sources example_object \<and>
      indexed_sources st' = indexed_sources example_object \<and>
      sources st' 10 = Some \<lparr>loop = False, fading = None\<rparr> \<and>
      sources st' 13 = Some \<lparr>loop = True, fading = Some (1 / 10)\<rparr>)"
proof -
  note t = cancel_all_force_or_fade [OF example_object_inv, of example_fade_out "1 / 10"]
  from t obtain st1 where a: "cancel_all example_fade_out True (1 / 10) example_object = Some st1"
    and b: "named_sources st1 = []" "indexed_sources st1 = []"
    and c: "\<forall>p. sources st1 p = (if p \<in> owned example_object then None
        else sources example_object p)"
    by blast
  from c have c': "sources st1 10 = None" "sources st1 13 = None"
    "sources st1 18 = sources example_object 18"
    by (simp_all add: example_under)
  from t obtain st2 where d: "cancel_all example_fade_out False (1 / 10) example_object = Some st2"
    and e: "named_sources st2 = named_sources example_object"
      "indexed_sources st2 = indexed_sources example_object"
    and f: "\<forall>p \<in> owned example_object. \<exists>s. sources example_object p = Some s \<and>
        sources st2 p = Some (if loop s then example_fade_out (1 / 10) s else s)"
    by blast
  from f have f': "sources st2 10 = Some \<lparr>loop = False, fading = None\<rparr>"
    "sources st2 13 = Some \<lparr>loop = True, fading = Some (1 / 10)\<rparr>"
    by (simp_all add: example_under example_sources example_fade_out_def)
  show ?thesis using example_object_inv a b c' d e f' by blast
qed

lemma cancel_all_returns:
  assumes "object_inv st"
  shows "\<exists>st'. cancel_all fade_out force fadeout st = Some st' \<and>
           dead st' = dead st \<and> ctx st' = ctx st"
  using cancel_all_force [OF assms, of fade_out fadeout] cancel_all_fade [OF assms, of fade_out fadeout]
  by (cases force) simp_all

text \<open>
  C10. The destructor of an object whose dead flag is set changes nothing: no source is
  cancelled or deleted and \<^verbatim>\<open>delete_object\<close> is not called; this is the state
  \<^verbatim>\<open>autodelete()\<close> leaves. The destructor of an object that is not dead runs
  \<^verbatim>\<open>cancel_all()\<close> and then calls \<^verbatim>\<open>delete_object\<close> of its \<^verbatim>\<open>Context\<close>.
\<close>

theorem destructor_dead_noop:
  "(dead st \<longrightarrow> destructor fade_out delete_object force fadeout st = Some st) \<and>
   (\<forall>st'. autodelete fade_out force fadeout st = Some st' \<longrightarrow>
       dead st' \<and> destructor fade_out delete_object force fadeout st' = Some st') \<and>
   (object_inv st \<and> \<not> dead st \<longrightarrow>
      (\<exists>st'. cancel_all fade_out force fadeout st = Some st' \<and>
         destructor fade_out delete_object force fadeout st
           = Some (st'\<lparr>ctx := delete_object (ctx st)\<rparr>)))"
proof (intro conjI allI impI)
  assume "dead st"
  then show "destructor fade_out delete_object force fadeout st = Some st"
    by (simp add: destructor_def)
next
  fix st' assume "autodelete fade_out force fadeout st = Some st'"
  then show "dead st'"
    by (auto simp: autodelete_def split: option.splits)
  then show "destructor fade_out delete_object force fadeout st' = Some st'"
    by (simp add: destructor_def)
next
  assume "object_inv st \<and> \<not> dead st"
  then have inv: "object_inv st" and nd: "\<not> dead st" by simp_all
  from cancel_all_returns [OF inv, of fade_out force fadeout] obtain st' where
    "cancel_all fade_out force fadeout st = Some st'" "ctx st' = ctx st" by blast
  then show "\<exists>st'. cancel_all fade_out force fadeout st = Some st' \<and>
         destructor fade_out delete_object force fadeout st
           = Some (st'\<lparr>ctx := delete_object (ctx st)\<rparr>)"
    using nd by (simp add: destructor_def)
qed

theorem destructor_dead_noop_witness:
  "dead (example_object\<lparr>dead := True\<rparr>) \<and>
   destructor example_fade_out Suc False (1 / 10) (example_object\<lparr>dead := True\<rparr>)
     = Some (example_object\<lparr>dead := True\<rparr>) \<and>
   (\<exists>st'. autodelete example_fade_out False (1 / 10) example_object = Some st' \<and> dead st' \<and>
      destructor example_fade_out Suc False (1 / 10) st' = Some st') \<and>
   object_inv example_object \<and> \<not> dead example_object \<and>
   (\<exists>st'. cancel_all example_fade_out False (1 / 10) example_object = Some st' \<and>
      destructor example_fade_out Suc False (1 / 10) example_object = Some (st'\<lparr>ctx := 2\<rparr>))"
proof -
  have d: "dead (example_object\<lparr>dead := True\<rparr>)" by simp
  have nd: "\<not> dead example_object" by (simp add: example_object_def)
  have c: "ctx example_object = 1" by (simp add: example_object_def)
  from cancel_all_returns [OF example_object_inv, of example_fade_out False "1 / 10"]
  have "\<exists>st'. autodelete example_fade_out False (1 / 10) example_object = Some st'"
    by (auto simp: autodelete_def)
  then show ?thesis
    using d nd c example_object_inv
      destructor_dead_noop [where st = "example_object\<lparr>dead := True\<rparr>"
        and fade_out = example_fade_out and delete_object = Suc and force = False
        and fadeout = "1 / 10"]
      destructor_dead_noop [where st = example_object
        and fade_out = example_fade_out and delete_object = Suc and force = False
        and fadeout = "1 / 10"]
    by auto
qed

end
